theory Spec2Isabelle
  imports Main "HOL-Library.Word"
begin

section \<open>Constants of \<^verbatim>\<open>fty_shm.cc\<close>\<close>

text \<open>
  The metric store keeps one file of 128 bytes per metric in one shared directory.
  The constants below are the macros of the source. \<open>NAME_MAX\<close> comes from the
  platform's \<^verbatim>\<open>limits.h\<close>; the source includes \<^verbatim>\<open>linux/fs.h\<close>, so the Linux value
  255 is taken.
\<close>

definition DEFAULT_SHM_DIR :: string where
  "DEFAULT_SHM_DIR = ''/run/fty-shm-1''"

definition METRIC_SUFFIX :: string where
  "METRIC_SUFFIX = ''.metric''"

definition SUFFIX_LEN :: nat where
  "SUFFIX_LEN = 7"

definition TTL_LEN :: nat where
  "TTL_LEN = 10"

definition UNIT_START :: nat where
  "UNIT_START = 11"

definition UNIT_LEN :: nat where
  "UNIT_LEN = 10"

definition PAYLOAD_START :: nat where
  "PAYLOAD_START = 22"

definition PAYLOAD_LEN :: nat where
  "PAYLOAD_LEN = 106"

definition NAME_MAX :: nat where
  "NAME_MAX = 255"

definition NUL :: char where
  "NUL = CHR 0x00"

definition NL :: char where
  "NL = CHR 0x0A"

text \<open>The static variable \<open>shm_dir\<close>; only the self-test changes it.\<close>

definition shm_dir :: string where
  "shm_dir = DEFAULT_SHM_DIR"

section \<open>Failures\<close>

text \<open>
  Every function of the source returns \<open>-1\<close> with \<open>errno\<close> set, or \<open>0\<close>. The model
  returns the \<open>errno\<close> value as the left injection of a sum. \<open>OutOfBounds\<close> is not an
  \<open>errno\<close>: it marks a walk of the unit loop of \<open>read_value\<close> that would leave the
  buffer on its left. The NUL at byte \<open>TTL_LEN\<close> stops every walk before that, and
  \<open>read_value\<close> never returns it (lemma \<open>read_value_in_bounds\<close>).
\<close>

datatype failure =
    EINVAL
  | ENAMETOOLONG
  | ENOENT
  | EIO
  | ERANGE
  | ESTALE
  | EEXIST
  | EISDIR
  | OutOfBounds

section \<open>The shared directory\<close>

text \<open>
  A file carries what \<open>stat\<close> reports of it and its bytes. The directory is the list of
  its entries in the order \<open>readdir\<close> yields them; \<open>None\<close> is a directory that
  \<open>opendir\<close> and \<open>open\<close> cannot reach.
\<close>

record shm_file =
  st_dev :: nat
  st_ino :: nat
  st_mtime :: int
  bytes :: string

type_synonym directory = "(string \<times> shm_file) list"

type_synonym shm = "directory option"

definition lookup :: "directory \<Rightarrow> string \<Rightarrow> shm_file option" where
  "lookup d name = map_of d name"

definition unlink_entry :: "string \<Rightarrow> directory \<Rightarrow> directory" where
  "unlink_entry name d = filter (\<lambda>e. fst e \<noteq> name) d"

definition store_entry :: "string \<Rightarrow> shm_file \<Rightarrow> directory \<Rightarrow> directory" where
  "store_entry name f d =
     (if name \<in> fst ` set d then map (\<lambda>e. if fst e = name then (name, f) else e) d
      else d @ [(name, f)])"

definition fresh_ino :: "directory \<Rightarrow> nat" where
  "fresh_ino d = Suc (foldr max (map (\<lambda>e. st_ino (snd e)) d) 0)"

text \<open>A C string ends at its first NUL byte.\<close>

definition c_str :: "string \<Rightarrow> string" where
  "c_str s = takeWhile (\<lambda>c. c \<noteq> NUL) s"

text \<open>
  Paths are resolved against the shared directory only: a path names an entry when it is
  \<open>shm_dir\<close>, a slash and an entry name without a slash.
\<close>

definition shm_entry :: "string \<Rightarrow> string option" where
  "shm_entry path =
     (let p = c_str path; n = length shm_dir + 1 in
      if take n p = shm_dir @ ''/'' \<and> CHR ''/'' \<notin> set (drop n p) \<and> drop n p \<noteq> []
      then Some (drop n p) else None)"

section \<open>Name codec\<close>

definition prepare_filename :: "string \<Rightarrow> string \<Rightarrow> failure + string" where
  "prepare_filename asset metric =
     (if length asset + length '':'' + length metric + SUFFIX_LEN > NAME_MAX
      then Inl ENAMETOOLONG
      else if CHR ''/'' \<in> set asset \<or> CHR '':'' \<in> set asset \<or>
              CHR ''/'' \<in> set metric \<or> CHR '':'' \<in> set metric
      then Inl EINVAL
      else Inr (shm_dir @ ''/'' @ asset @ '':'' @ metric @ METRIC_SUFFIX @ [NUL]))"

section \<open>Record codec\<close>

text \<open>
  The loop of \<open>write_value\<close> that fills the first \<open>TTL_LEN\<close> bytes from the right with
  the decimal digits of \<open>ttl\<close>. It runs on a value that is not negative, where the C
  operators \<open>/\<close> and \<open>%\<close> agree with \<open>div\<close> and \<open>mod\<close>.
\<close>

fun ttl_digits :: "nat \<Rightarrow> int \<Rightarrow> string" where
  "ttl_digits 0 ttl = []"
| "ttl_digits (Suc n) ttl = ttl_digits n (ttl div 10) @ [char_of (48 + ttl mod 10)]"

definition record_buf :: "string \<Rightarrow> string \<Rightarrow> int \<Rightarrow> string" where
  "record_buf val un ttl =
     ttl_digits TTL_LEN (if ttl < 0 then 0 else ttl) @ [NL] @
     un @ replicate (UNIT_LEN - length un) CHR '' '' @ [NL] @
     val @ replicate (PAYLOAD_LEN - length val) NUL"

text \<open>
  \<open>pwrite\<close> of the whole buffer at offset 0: bytes of an older, longer file beyond the
  buffer stay.
\<close>

definition pwrite0 :: "string \<Rightarrow> string \<Rightarrow> string" where
  "pwrite0 buf old = buf @ drop (length buf) old"

text \<open>
  \<open>write_value\<close> at time \<open>now\<close>. The lengths are those the callers pass: \<open>strlen\<close> of a
  C string or \<open>length()\<close> of a \<open>std::string\<close>, in both cases the length of the list.
  \<open>open\<close> with \<open>O_CREAT\<close> makes a missing entry, with an inode number no entry has.
  A path that ends at the slash behind \<open>shm_dir\<close> (an asset that starts with a NUL byte)
  names the directory itself, which \<open>open\<close> refuses for writing with \<open>EISDIR\<close>.
\<close>

definition write_value ::
  "int \<Rightarrow> string \<Rightarrow> string \<Rightarrow> string \<Rightarrow> int \<Rightarrow> shm \<Rightarrow> failure + shm" where
  "write_value now filename val un ttl s =
     (if length val > PAYLOAD_LEN then Inl EINVAL
      else if length un > UNIT_LEN then Inl EINVAL
      else case s of
        None \<Rightarrow> Inl ENOENT
      | Some d \<Rightarrow>
         if c_str filename = shm_dir @ ''/'' then Inl EISDIR
         else
         (case shm_entry filename of
            None \<Rightarrow> Inl ENOENT
          | Some name \<Rightarrow>
             (let f = (case lookup d name of
                         Some f \<Rightarrow> f
                       | None \<Rightarrow> \<lparr>st_dev = 0, st_ino = fresh_ino d, st_mtime = now, bytes = []\<rparr>);
                  buf = record_buf val un ttl
              in Inr (Some (store_entry name
                       (f\<lparr>st_mtime := now, bytes := pwrite0 buf (bytes f)\<rparr>) d)))))"

subsection \<open>Parsing the TTL\<close>

definition isspace :: "char \<Rightarrow> bool" where
  "isspace c \<longleftrightarrow> c = CHR '' '' \<or> (9 \<le> (of_char c :: nat) \<and> (of_char c :: nat) \<le> 13)"

definition isdigit :: "char \<Rightarrow> bool" where
  "isdigit c \<longleftrightarrow> 48 \<le> (of_char c :: nat) \<and> (of_char c :: nat) \<le> 57"

fun decimal :: "int \<Rightarrow> string \<Rightarrow> int" where
  "decimal acc [] = acc"
| "decimal acc (c # cs) = decimal (10 * acc + (of_char c - 48)) cs"

definition LONG_MAX :: int where
  "LONG_MAX = 9223372036854775807"

text \<open>
  \<open>strtol(s, &end, 10)\<close> of the C library on a 64-bit \<open>long\<close>: white space is skipped,
  one sign is taken, then the digits. The result is the value, kept within the range of
  \<open>long\<close>, and the number of bytes \<open>end\<close> lies behind the start; with no digit \<open>end\<close> is
  the start and the value 0.
\<close>

definition strtol :: "string \<Rightarrow> int \<times> nat" where
  "strtol s =
     (let cs = c_str s;
          ws = takeWhile isspace cs;
          r1 = dropWhile isspace cs;
          neg = (r1 \<noteq> [] \<and> hd r1 = CHR ''-'');
          signed = (r1 \<noteq> [] \<and> (hd r1 = CHR ''-'' \<or> hd r1 = CHR ''+''));
          r2 = (if signed then tl r1 else r1);
          ds = takeWhile isdigit r2;
          v = decimal 0 ds
      in if ds = [] then (0, 0)
         else (if neg then max (- LONG_MAX - 1) (- v) else min LONG_MAX v,
               length ws + (if signed then 1 else 0) + length ds))"

text \<open>
  \<open>parse_ttl\<close> overwrites byte \<open>TTL_LEN\<close> with NUL and accepts when \<open>strtol\<close> stops
  exactly there. The value goes through \<open>int res\<close>, 32 bits wide, before it reaches the
  \<open>time_t\<close>.
\<close>

definition parse_ttl :: "string \<Rightarrow> failure + int" where
  "parse_ttl ttl_str =
     (let (res, err) = strtol (ttl_str[TTL_LEN := NUL])
      in if err \<noteq> TTL_LEN then Inl ERANGE
         else Inr (sint (word_of_int res :: 32 word)))"

subsection \<open>Reading a record\<close>

text \<open>
  The loop of \<open>read_value\<close> that walks left from \<open>unit_buf[UNIT_LEN]\<close> over spaces and
  newlines. The argument is the index into the whole buffer. The NUL that \<open>read_value\<close>
  has put at byte \<open>TTL_LEN\<close> stops it; a walk that would leave the buffer on the left is
  \<open>None\<close>.
\<close>

fun unit_end :: "string \<Rightarrow> nat \<Rightarrow> nat option" where
  "unit_end buf 0 = (if buf ! 0 = CHR '' '' \<or> buf ! 0 = NL then None else Some 0)"
| "unit_end buf (Suc j) =
     (if buf ! Suc j = CHR '' '' \<or> buf ! Suc j = NL then unit_end buf j else Some (Suc j))"

text \<open>
  \<open>dup_str\<close> copies the C string at an offset of the buffer and has no failure path.
  Without a NUL in the rest of the buffer the copy runs past its end, into the bytes that
  lie behind the buffer in memory: they are the parameter \<open>behind\<close>, and the copy stops
  at their first NUL. The C language leaves such a read undefined; the code returns 0 all
  the same.
\<close>

definition dup_str :: "string \<Rightarrow> nat \<Rightarrow> string \<Rightarrow> string" where
  "dup_str buf off behind = c_str (drop off buf @ behind)"

definition read_buf :: "shm_file \<Rightarrow> nat \<Rightarrow> failure + string" where
  "read_buf f len = (if length (bytes f) < len then Inl EIO else Inr (take len (bytes f)))"

text \<open>
  \<open>read_value\<close> at time \<open>now\<close>, with the bytes \<open>behind\<close> its buffer. A path that
  names the directory itself opens for reading, and \<open>read\<close> fails on it with \<open>EISDIR\<close>.
\<close>

definition read_value ::
  "int \<Rightarrow> string \<Rightarrow> bool \<Rightarrow> string \<Rightarrow> shm \<Rightarrow> failure + (string \<times> string option)" where
  "read_value now filename need_unit behind s =
     (case s of
        None \<Rightarrow> Inl ENOENT
      | Some d \<Rightarrow>
         if c_str filename = shm_dir @ ''/'' then Inl EISDIR
         else
         (case shm_entry filename of
            None \<Rightarrow> Inl ENOENT
          | Some name \<Rightarrow>
             (case lookup d name of
                None \<Rightarrow> Inl ENOENT
              | Some st \<Rightarrow>
                 (case read_buf st (PAYLOAD_START + PAYLOAD_LEN) of
                    Inl e \<Rightarrow> Inl e
                  | Inr buf0 \<Rightarrow>
                     (let buf = buf0[TTL_LEN := NUL] in
                      case parse_ttl buf of
                        Inl e \<Rightarrow> Inl e
                      | Inr ttl \<Rightarrow>
                         if ttl \<noteq> 0 \<and> now - st_mtime st > ttl then Inl ESTALE
                         else if need_unit then
                           (case unit_end buf (UNIT_START + UNIT_LEN) of
                              None \<Rightarrow> Inl OutOfBounds
                            | Some j \<Rightarrow>
                               (let buf' = buf[Suc j := NUL] in
                                Inr (dup_str buf' PAYLOAD_START behind,
                                     Some (dup_str buf' UNIT_START behind))))
                         else Inr (dup_str buf PAYLOAD_START behind, None))))))"

section \<open>Metric store\<close>

definition write_metric ::
  "int \<Rightarrow> string \<Rightarrow> string \<Rightarrow> string \<Rightarrow> string \<Rightarrow> int \<Rightarrow> shm \<Rightarrow> failure + shm" where
  "write_metric now asset metric val un ttl s =
     (case prepare_filename asset metric of
        Inl e \<Rightarrow> Inl e
      | Inr filename \<Rightarrow> write_value now filename val un ttl s)"

definition read_metric ::
  "int \<Rightarrow> string \<Rightarrow> string \<Rightarrow> bool \<Rightarrow> string \<Rightarrow> shm \<Rightarrow>
     failure + (string \<times> string option)" where
  "read_metric now asset metric need_unit behind s =
     (case prepare_filename asset metric of
        Inl e \<Rightarrow> Inl e
      | Inr filename \<Rightarrow> read_value now filename need_unit behind s)"

section \<open>Directory scanner\<close>

text \<open>
  The scanning functions walk the names \<open>readdir\<close> yields. The entries \<open>.\<close> and \<open>..\<close>
  of a real directory have neither a colon nor the suffix, every loop below passes them
  over at its first test, and the model leaves them out of the list. \<open>strchr\<close> finds the
  first colon; the bytes before it are the asset.
\<close>

definition asset_of :: "string \<Rightarrow> string" where
  "asset_of d_name = takeWhile (\<lambda>c. c \<noteq> CHR '':'') d_name"

text \<open>
  \<open>Assets\<close> and \<open>Metrics\<close> are declared in \<^verbatim>\<open>fty_shm.h\<close>: a sequence of strings that
  the source fills with \<open>push_back\<close>, and an associative container from the metric name
  to a \<open>Metric\<close> that it fills with \<open>emplace\<close>, which leaves a key that is present alone.
\<close>

record Metric =
  metric_value :: string
  metric_unit :: string

type_synonym Assets = "string list"

type_synonym Metrics = "string \<rightharpoonup> Metric"

definition emplace :: "string \<Rightarrow> Metric \<Rightarrow> Metrics \<Rightarrow> Metrics" where
  "emplace k v m = (if k \<in> dom m then m else m(k \<mapsto> v))"

fun find_assets_loop :: "string list \<Rightarrow> string set \<times> Assets \<Rightarrow> string set \<times> Assets" where
  "find_assets_loop [] st = st"
| "find_assets_loop (d_name # rest) (seen, assets) =
     (if CHR '':'' \<notin> set d_name then find_assets_loop rest (seen, assets)
      else if asset_of d_name \<in> seen then find_assets_loop rest (seen, assets)
      else find_assets_loop rest (insert (asset_of d_name) seen, assets @ [asset_of d_name]))"

definition find_assets :: "shm \<Rightarrow> Assets \<Rightarrow> int \<times> Assets" where
  "find_assets s assets =
     (case s of
        None \<Rightarrow> (- 1, assets)
      | Some d \<Rightarrow> (0, snd (find_assets_loop (map fst d) ({}, []))))"

text \<open>
  In the loop of \<open>read_asset_metrics\<close>, \<open>behind d_name\<close> are the bytes behind the buffer
  of \<open>read_value\<close> at the time it reads the entry \<open>d_name\<close>.
\<close>

fun read_asset_metrics_loop ::
  "int \<Rightarrow> (string \<Rightarrow> string) \<Rightarrow> directory \<Rightarrow> string \<Rightarrow> string list \<Rightarrow>
     int \<times> Metrics \<Rightarrow> int \<times> Metrics" where
  "read_asset_metrics_loop now behind d asset [] st = st"
| "read_asset_metrics_loop now behind d asset (d_name # rest) (err, metrics) =
     (let len = length d_name in
      if CHR '':'' \<notin> set d_name \<or> len < SUFFIX_LEN
      then read_asset_metrics_loop now behind d asset rest (err, metrics)
      else
       (let asset_len = length (asset_of d_name);
            metric_len = len - asset_len - length '':'' - SUFFIX_LEN
        in if drop (len - SUFFIX_LEN) d_name \<noteq> METRIC_SUFFIX
           then read_asset_metrics_loop now behind d asset rest (err, metrics)
           else if take asset_len d_name \<noteq> asset
           then read_asset_metrics_loop now behind d asset rest (err, metrics)
           else
            (case read_value now (shm_dir @ ''/'' @ d_name @ [NUL]) True (behind d_name) (Some d) of
               Inl e \<Rightarrow> read_asset_metrics_loop now behind d asset rest (err, metrics)
             | Inr (val, un) \<Rightarrow>
                read_asset_metrics_loop now behind d asset rest
                  (0, emplace (take metric_len (drop (Suc asset_len) d_name))
                        \<lparr>metric_value = val,
                         metric_unit = (case un of None \<Rightarrow> [] | Some u \<Rightarrow> u)\<rparr> metrics))))"

definition read_asset_metrics ::
  "int \<Rightarrow> (string \<Rightarrow> string) \<Rightarrow> shm \<Rightarrow> string \<Rightarrow> Metrics \<Rightarrow> int \<times> Metrics" where
  "read_asset_metrics now behind s asset metrics =
     (case s of
        None \<Rightarrow> (- 1, metrics)
      | Some d \<Rightarrow> read_asset_metrics_loop now behind d asset (map fst d) (- 1, Map.empty))"

subsection \<open>System calls on entries\<close>

definition unlinkat :: "string \<Rightarrow> directory \<Rightarrow> failure + directory" where
  "unlinkat name d =
     (if name \<in> fst ` set d then Inr (unlink_entry name d) else Inl ENOENT)"

definition renameat :: "string \<Rightarrow> string \<Rightarrow> directory \<Rightarrow> failure + directory" where
  "renameat src dst d =
     (case lookup d src of
        None \<Rightarrow> Inl ENOENT
      | Some f \<Rightarrow>
         if src = dst then Inr d
         else Inr (unlink_entry src (unlink_entry dst d) @ [(dst, f)]))"

text \<open>\<open>renameat2\<close> with \<open>RENAME_NOREPLACE\<close>: it fails when the destination exists.\<close>

definition rename_noreplace :: "string \<Rightarrow> string \<Rightarrow> directory \<Rightarrow> failure + directory" where
  "rename_noreplace src dst d =
     (case lookup d src of
        None \<Rightarrow> Inl ENOENT
      | Some f \<Rightarrow>
         if dst \<in> fst ` set d then Inl EEXIST
         else Inr (unlink_entry src d @ [(dst, f)]))"

text \<open>
  \<open>fty_shm_delete_asset\<close> takes the asset as a C string. The first component of the
  loop state is the directory, the second the variable \<open>err\<close>.
\<close>

fun delete_asset_loop :: "string \<Rightarrow> string list \<Rightarrow> directory \<times> int \<Rightarrow> directory \<times> int" where
  "delete_asset_loop asset [] st = st"
| "delete_asset_loop asset (d_name # rest) (d, err) =
     (if CHR '':'' \<notin> set d_name then delete_asset_loop asset rest (d, err)
      else if asset_of d_name \<noteq> c_str asset then delete_asset_loop asset rest (d, err)
      else case unlinkat d_name d of
             Inl e \<Rightarrow> delete_asset_loop asset rest (d, - 1)
           | Inr d' \<Rightarrow> delete_asset_loop asset rest (d', err))"

definition fty_shm_delete_asset :: "string \<Rightarrow> shm \<Rightarrow> int \<times> shm" where
  "fty_shm_delete_asset asset s =
     (case s of
        None \<Rightarrow> (- 1, None)
      | Some d \<Rightarrow>
         (let (d', err) = delete_asset_loop asset (map fst d) (d, 0) in (err, Some d')))"

section \<open>Garbage collector\<close>

text \<open>
  Other processes write, create and remove entries while \<open>fty_shm_cleanup\<close> works on one.
  What they do between its system calls is a parameter: one function on the directory for
  each of the three gaps in which the source expects a race. \<open>quiet\<close> is a run without
  other processes.
\<close>

record interference =
  after_scan :: "directory \<Rightarrow> directory"
  after_rename :: "directory \<Rightarrow> directory"
  after_stat :: "directory \<Rightarrow> directory"

definition quiet :: "string \<Rightarrow> interference" where
  "quiet d_name = \<lparr>after_scan = (\<lambda>d. d), after_rename = (\<lambda>d. d), after_stat = (\<lambda>d. d)\<rparr>"

text \<open>Division of C, which rounds towards zero.\<close>

definition c_div :: "int \<Rightarrow> int \<Rightarrow> int" where
  "c_div a b = sgn a * sgn b * (\<bar>a\<bar> div \<bar>b\<bar>)"

definition DELETE_NAME :: string where
  "DELETE_NAME = ''.delete''"

text \<open>
  The last step of the loop body: the entry under the temporary name is not the file that
  was examined, so it is moved back unless its name is taken again.
\<close>

definition cleanup_restore :: "string \<Rightarrow> directory \<times> int \<Rightarrow> directory \<times> int" where
  "cleanup_restore d_name st =
     (case rename_noreplace DELETE_NAME d_name (fst st) of
        Inl e \<Rightarrow>
         (case unlinkat DELETE_NAME (fst st) of
            Inl e' \<Rightarrow> (fst st, - 1)
          | Inr d' \<Rightarrow> (d', - 1))
      | Inr d' \<Rightarrow> (d', snd st))"

text \<open>The body of the loop of \<open>fty_shm_cleanup\<close> for one name, at time \<open>now\<close>.\<close>

definition cleanup_entry ::
  "int \<Rightarrow> interference \<Rightarrow> string \<Rightarrow> directory \<times> int \<Rightarrow> directory \<times> int" where
  "cleanup_entry now env d_name st =
     (let d = fst st; err = snd st; len = length d_name in
      if len < SUFFIX_LEN then (d, err)
      else if drop (len - SUFFIX_LEN) d_name \<noteq> METRIC_SUFFIX then (d, err)
      else case lookup d d_name of
        None \<Rightarrow> (d, - 1)
      | Some st1 \<Rightarrow>
         if length (bytes st1) < PAYLOAD_START then (d, err)
         else case read_buf st1 (TTL_LEN + 1) of
           Inl e \<Rightarrow> (d, - 1)
         | Inr ttl_str \<Rightarrow>
            (case parse_ttl ttl_str of
               Inl e \<Rightarrow> (d, - 1)
             | Inr ttl \<Rightarrow>
                if ttl = 0 then (d, err)
                else if c_div (now - st_mtime st1) 2 \<le> ttl then (d, err)
                else
                 (let d1 = after_scan env d in
                  case renameat d_name DELETE_NAME d1 of
                    Inl e \<Rightarrow> (d1, - 1)
                  | Inr d2 \<Rightarrow>
                     (let d3 = after_rename env d2 in
                      case lookup d3 DELETE_NAME of
                        None \<Rightarrow> (d3, - 1)
                      | Some st2 \<Rightarrow>
                         (let d4 = after_stat env d3 in
                          if st_dev st1 = st_dev st2 \<and> st_ino st1 = st_ino st2
                          then (case unlinkat DELETE_NAME d4 of
                                  Inl e \<Rightarrow> (d4, - 1)
                                | Inr d5 \<Rightarrow> (d5, err))
                          else cleanup_restore d_name (d4, err))))))"

fun cleanup_loop ::
  "int \<Rightarrow> (string \<Rightarrow> interference) \<Rightarrow> string list \<Rightarrow> directory \<times> int \<Rightarrow> directory \<times> int" where
  "cleanup_loop now env [] st = st"
| "cleanup_loop now env (d_name # rest) st =
     cleanup_loop now env rest (cleanup_entry now (env d_name) d_name st)"

definition fty_shm_cleanup :: "int \<Rightarrow> (string \<Rightarrow> interference) \<Rightarrow> shm \<Rightarrow> int \<times> shm" where
  "fty_shm_cleanup now env s =
     (case s of
        None \<Rightarrow> (- 1, None)
      | Some d \<Rightarrow>
         (let (d', err) = cleanup_loop now env (map fst d) (d, 0) in (err, Some d')))"

section \<open>Auxiliary notions\<close>

text \<open>
  Two parts of \<open>strtol\<close>, named for the lemmas about it: the bytes left after the white
  space and the sign, and the value returned for a sign and a run of digits.
\<close>

definition digits_after_sign :: "string \<Rightarrow> string" where
  "digits_after_sign s =
     (let r = dropWhile isspace s
      in if r \<noteq> [] \<and> (hd r = CHR ''-'' \<or> hd r = CHR ''+'') then tl r else r)"

definition strtol_value :: "string \<Rightarrow> string \<Rightarrow> int" where
  "strtol_value sg ds =
     (if sg = ''-'' then max (- LONG_MAX - 1) (- decimal 0 ds) else min LONG_MAX (decimal 0 ds))"

text \<open>The tests of the loop of \<open>read_asset_metrics\<close> that an entry name must pass to be read.\<close>

definition metric_entry :: "string \<Rightarrow> string \<Rightarrow> bool" where
  "metric_entry asset d_name \<longleftrightarrow>
     CHR '':'' \<in> set d_name \<and> \<not> length d_name < SUFFIX_LEN \<and>
     drop (length d_name - SUFFIX_LEN) d_name = METRIC_SUFFIX \<and>
     take (length (asset_of d_name)) d_name = asset"

definition entry_path :: "string \<Rightarrow> string" where
  "entry_path d_name = shm_dir @ ''/'' @ d_name @ [NUL]"

definition metric_key :: "string \<Rightarrow> string" where
  "metric_key d_name =
     take (length d_name - length (asset_of d_name) - length '':'' - SUFFIX_LEN)
       (drop (Suc (length (asset_of d_name))) d_name)"

text \<open>Memory in which a NUL byte lies right behind the buffer of \<open>read_value\<close>.\<close>

definition zeroed :: "string \<Rightarrow> string" where
  "zeroed d_name = [NUL]"

text \<open>
  The tests of the loop of \<open>fty_shm_cleanup\<close> up to the decision to remove an entry: the
  name ends in the suffix, the file opens, holds at least \<open>PAYLOAD_START\<close> bytes, its TTL
  parses to a value other than 0, and half the time since its last write exceeds it.
\<close>

definition metric_name :: "string \<Rightarrow> bool" where
  "metric_name d_name \<longleftrightarrow>
     \<not> length d_name < SUFFIX_LEN \<and> drop (length d_name - SUFFIX_LEN) d_name = METRIC_SUFFIX"

definition eligible :: "int \<Rightarrow> directory \<Rightarrow> string \<Rightarrow> bool" where
  "eligible now d d_name \<longleftrightarrow>
     metric_name d_name \<and>
     (case lookup d d_name of
        None \<Rightarrow> False
      | Some st1 \<Rightarrow>
         \<not> length (bytes st1) < PAYLOAD_START \<and>
         (case parse_ttl (take (TTL_LEN + 1) (bytes st1)) of
            Inl e \<Rightarrow> False
          | Inr ttl \<Rightarrow> ttl \<noteq> 0 \<and> \<not> c_div (now - st_mtime st1) 2 \<le> ttl))"

text \<open>
  Another process at work while one entry is cleaned up: it replaces the entry by a new
  file before the rename, and creates it once more before the restore.
\<close>

definition racing_writer :: "string \<Rightarrow> interference" where
  "racing_writer d_name =
     \<lparr>after_scan = store_entry d_name
        \<lparr>st_dev = 0, st_ino = 7, st_mtime = 4, bytes = record_buf ''24.0'' ''C'' 1\<rparr>,
      after_rename = id,
      after_stat = store_entry d_name
        \<lparr>st_dev = 0, st_ino = 8, st_mtime = 4, bytes = record_buf ''24.5'' ''C'' 1\<rparr>\<rparr>"

section \<open>Properties of the name codec\<close>

text \<open>
  C7, as the code has it. \<open>prepare_filename\<close> tests the length first: a name that is too
  long is refused with \<open>ENAMETOOLONG\<close> whatever bytes it holds, and a name within the
  limit that holds a slash or a colon is refused with \<open>EINVAL\<close>. In both cases
  \<open>write_metric\<close> and \<open>read_metric\<close> return the error before any file is opened.
\<close>

theorem prepare_filename_rejects:
  "(length asset + 1 + length metric + 7 > 255 \<longrightarrow>
      write_metric now asset metric val un ttl s = Inl ENAMETOOLONG \<and>
      read_metric now asset metric need_unit behind s = Inl ENAMETOOLONG) \<and>
   (length asset + 1 + length metric + 7 \<le> 255 \<and>
    (CHR ''/'' \<in> set asset \<or> CHR '':'' \<in> set asset \<or>
     CHR ''/'' \<in> set metric \<or> CHR '':'' \<in> set metric) \<longrightarrow>
      write_metric now asset metric val un ttl s = Inl EINVAL \<and>
      read_metric now asset metric need_unit behind s = Inl EINVAL)"
  by (auto simp: write_metric_def read_metric_def prepare_filename_def SUFFIX_LEN_def NAME_MAX_def)

theorem prepare_filename_rejects_witness:
  "length (replicate 250 CHR ''A'') + 1 + length ''m'' + 7 > 255 \<and>
   write_metric 0 (replicate 250 CHR ''A'') ''m'' ''v'' ''u'' 0 (Some []) = Inl ENAMETOOLONG \<and>
   read_metric 0 (replicate 250 CHR ''A'') ''m'' True ''#'' (Some []) = Inl ENAMETOOLONG \<and>
   length ''bad/asset'' + 1 + length ''m'' + 7 \<le> 255 \<and> CHR ''/'' \<in> set ''bad/asset'' \<and>
   write_metric 0 ''bad/asset'' ''m'' ''v'' ''u'' 0 (Some []) = Inl EINVAL \<and>
   read_metric 0 ''bad/asset'' ''m'' True ''#'' (Some []) = Inl EINVAL"
  using prepare_filename_rejects [where asset = "replicate 250 CHR ''A''" and metric = "''m''"
          and now = 0 and val = "''v''" and un = "''u''" and ttl = 0 and s = "Some []"
          and need_unit = True and behind = "''#''"]
        prepare_filename_rejects [where asset = "''bad/asset''" and metric = "''m''"
          and now = 0 and val = "''v''" and un = "''u''" and ttl = 0 and s = "Some []"
          and need_unit = True and behind = "''#''"]
  by simp

text \<open>
  C7 as the specification words it fails where both conditions meet: an asset of 250
  slashes is refused for its length, not for its slashes.
\<close>

theorem prepare_filename_two_errors_counterexample:
  "CHR ''/'' \<in> set (replicate 250 CHR ''/'') \<and>
   write_metric 0 (replicate 250 CHR ''/'') ''m'' ''v'' ''u'' 0 (Some []) \<noteq> Inl EINVAL \<and>
   read_metric 0 (replicate 250 CHR ''/'') ''m'' True ''#'' (Some []) \<noteq> Inl EINVAL"
  by (simp add: write_metric_def read_metric_def prepare_filename_def SUFFIX_LEN_def NAME_MAX_def)

section \<open>Properties of the record codec\<close>


subsection \<open>The grammar of the TTL field\<close>

lemma c_str_update_NUL:
  assumes "n < length buf"
  shows "c_str (buf[n := NUL]) = c_str (take n buf)"
proof -
  have "buf[n := NUL] = take n buf @ NUL # drop (Suc n) buf"
    using assms by (simp add: upd_conv_take_nth_drop)
  then show ?thesis
    by (auto simp add: c_str_def takeWhile_append takeWhile_eq_all_conv [THEN iffD2, symmetric])
qed

lemma c_str_idem: "c_str (c_str s) = c_str s"
  by (simp add: c_str_def)

lemma strtol_c_str: "strtol (c_str s) = strtol s"
  by (simp add: strtol_def c_str_idem)

lemma strtol_update_NUL:
  assumes "n < length buf"
  shows "strtol (buf[n := NUL]) = strtol (take n buf)"
  using c_str_update_NUL [OF assms] strtol_c_str [of "buf[n := NUL]"] strtol_c_str [of "take n buf"]
  by simp

lemma in_set_dropWhile: "x \<in> set xs \<Longrightarrow> \<not> P x \<Longrightarrow> x \<in> set (dropWhile P xs)"
  by (induction xs) auto

lemma length_takeWhile_less_NUL:
  "x \<in> set xs \<Longrightarrow> length (takeWhile (\<lambda>c. c \<noteq> x) xs) < length xs"
  by (induction xs) auto

lemma length_takeWhile_eq_iff:
  "length (takeWhile P xs) = length xs \<longleftrightarrow> (\<forall>x \<in> set xs. P x)"
proof (induction xs)
  case Nil
  show ?case by simp
next
  case (Cons a xs)
  have "length (takeWhile P xs) \<le> length xs" by (rule length_takeWhile_le)
  with Cons show ?case by auto
qed

lemma length_take_drop_While: "length xs = length (takeWhile P xs) + length (dropWhile P xs)"
  by (induction xs) auto

lemma NUL_facts: "\<not> isspace NUL" "\<not> isdigit NUL" "NUL \<noteq> CHR ''-''" "NUL \<noteq> CHR ''+''"
  by (simp_all add: isspace_def isdigit_def NUL_def)

lemma NUL_in_digits_after_sign:
  assumes "NUL \<in> set s"
  shows "NUL \<in> set (digits_after_sign s)"
proof -
  let ?r = "dropWhile isspace s"
  have r: "NUL \<in> set ?r" using assms NUL_facts(1) by (rule in_set_dropWhile)
  show ?thesis
  proof (cases "?r \<noteq> [] \<and> (hd ?r = CHR ''-'' \<or> hd ?r = CHR ''+'')")
    case True
    then obtain c cs where cs: "?r = c # cs" "c = CHR ''-'' \<or> c = CHR ''+''"
      by (cases ?r) auto
    with r NUL_facts have "NUL \<in> set cs" by auto
    with True cs show ?thesis by (simp add: digits_after_sign_def Let_def)
  next
    case False
    with r show ?thesis by (auto simp add: digits_after_sign_def Let_def)
  qed
qed

lemma strtol_snd_le: "snd (strtol s) \<le> length (c_str s)"
proof -
  let ?cs = "c_str s"
  let ?r1 = "dropWhile isspace ?cs"
  let ?sg = "?r1 \<noteq> [] \<and> (hd ?r1 = CHR ''-'' \<or> hd ?r1 = CHR ''+'')"
  let ?r2 = "if ?sg then tl ?r1 else ?r1"
  have a: "length ?cs = length (takeWhile isspace ?cs) + length ?r1"
    by (rule length_take_drop_While)
  have b: "length ?r1 = (if ?sg then 1 else 0) + length ?r2"
    by (cases ?r1) auto
  have c: "length (takeWhile isdigit ?r2) \<le> length ?r2"
    by (rule length_takeWhile_le)
  show ?thesis
    using a b c by (auto simp: strtol_def Let_def)
qed

lemma strtol_end_iff:
  assumes "s \<noteq> []"
  shows "snd (strtol s) = length s \<longleftrightarrow>
         digits_after_sign s \<noteq> [] \<and> (\<forall>c \<in> set (digits_after_sign s). isdigit c)"
proof (cases "NUL \<in> set s")
  case True
  then have "length (c_str s) < length s"
    unfolding c_str_def by (rule length_takeWhile_less_NUL)
  with strtol_snd_le [of s] have "snd (strtol s) \<noteq> length s" by simp
  moreover have "\<not> (\<forall>c \<in> set (digits_after_sign s). isdigit c)"
    using NUL_in_digits_after_sign [OF True] NUL_facts(2) by blast
  ultimately show ?thesis by simp
next
  case False
  then have cs: "c_str s = s" by (auto simp: c_str_def)
  let ?r1 = "dropWhile isspace s"
  let ?sg = "?r1 \<noteq> [] \<and> (hd ?r1 = CHR ''-'' \<or> hd ?r1 = CHR ''+'')"
  let ?r2 = "digits_after_sign s"
  have r2: "?r2 = (if ?sg then tl ?r1 else ?r1)" by (simp add: digits_after_sign_def Let_def)
  have a: "length s = length (takeWhile isspace s) + length ?r1"
    by (rule length_take_drop_While)
  have b: "length ?r1 = (if ?sg then 1 else 0) + length ?r2"
    unfolding r2 by (cases ?r1) auto
  have c: "length (takeWhile isdigit ?r2) \<le> length ?r2"
    by (rule length_takeWhile_le)
  have d: "length (takeWhile isdigit ?r2) = length ?r2 \<longleftrightarrow> (\<forall>c \<in> set ?r2. isdigit c)"
    by (rule length_takeWhile_eq_iff)
  have e: "snd (strtol s) =
        (if takeWhile isdigit ?r2 = [] then 0
         else length (takeWhile isspace s) + (if ?sg then 1 else 0) + length (takeWhile isdigit ?r2))"
    unfolding strtol_def cs r2 by (simp add: Let_def)
  show ?thesis
  proof (cases "takeWhile isdigit ?r2 = []")
    case True
    then have "snd (strtol s) = 0" using e by simp
    moreover have "?r2 = [] \<or> \<not> isdigit (hd ?r2)"
      using True by (cases ?r2) (auto split: if_splits)
    then have "\<not> (?r2 \<noteq> [] \<and> (\<forall>c \<in> set ?r2. isdigit c))" by (cases ?r2) auto
    ultimately show ?thesis using assms by simp
  next
    case False
    then have ne: "?r2 \<noteq> []" by auto
    from False e have "snd (strtol s) = length (takeWhile isspace s) + (if ?sg then 1 else 0) + length (takeWhile isdigit ?r2)"
      by simp
    with a b c d ne show ?thesis by auto
  qed
qed

lemma space_facts:
  "isspace c \<Longrightarrow> c \<noteq> NUL" "isspace c \<Longrightarrow> \<not> isdigit c"
  "isspace c \<Longrightarrow> c \<noteq> CHR ''-''" "isspace c \<Longrightarrow> c \<noteq> CHR ''+''"
  by (auto simp: isspace_def isdigit_def NUL_def)

lemma digit_facts:
  "isdigit c \<Longrightarrow> c \<noteq> NUL" "isdigit c \<Longrightarrow> \<not> isspace c"
  "isdigit c \<Longrightarrow> c \<noteq> CHR ''-''" "isdigit c \<Longrightarrow> c \<noteq> CHR ''+''"
  by (auto simp: isspace_def isdigit_def NUL_def)

lemma sign_facts:
  "\<not> isspace CHR ''-''" "\<not> isspace CHR ''+''" "\<not> isdigit CHR ''-''" "\<not> isdigit CHR ''+''"
  by (simp_all add: isspace_def isdigit_def)

lemma isdigit_int: "isdigit c \<longleftrightarrow> 48 \<le> (of_char c :: int) \<and> (of_char c :: int) \<le> 57"
proof -
  have "(of_char c :: int) = int (of_char c)" by (simp add: of_nat_of_char)
  then show ?thesis unfolding isdigit_def by linarith
qed

lemma decimal_bounds:
  "\<forall>c \<in> set ds. isdigit c \<Longrightarrow> 0 \<le> acc \<Longrightarrow>
     0 \<le> decimal acc ds \<and> decimal acc ds < (acc + 1) * 10 ^ length ds"
proof (induction ds arbitrary: acc)
  case Nil
  then show ?case by simp
next
  case (Cons c cs)
  from Cons.prems have c: "48 \<le> (of_char c :: int)" "(of_char c :: int) \<le> 57"
    using isdigit_int [of c] by auto
  let ?a = "10 * acc + (of_char c - 48)"
  have a0: "0 \<le> ?a" using c Cons.prems by simp
  have ih: "0 \<le> decimal ?a cs \<and> decimal ?a cs < (?a + 1) * 10 ^ length cs"
    using Cons.IH [of ?a] Cons.prems a0 by simp
  have le: "(?a + 1) * 10 ^ length cs \<le> (acc + 1) * 10 ^ length (c # cs)"
  proof -
    have "?a + 1 \<le> (acc + 1) * 10" using c by simp
    then have "(?a + 1) * 10 ^ length cs \<le> ((acc + 1) * 10) * 10 ^ length cs"
      by (rule mult_right_mono) simp
    then show ?thesis by (simp add: mult.assoc)
  qed
  have eq: "decimal acc (c # cs) = decimal ?a cs" by simp
  from ih have "0 \<le> decimal acc (c # cs)" unfolding eq by blast
  moreover from ih le have "decimal acc (c # cs) < (acc + 1) * 10 ^ length (c # cs)"
    unfolding eq by (blast intro: less_le_trans)
  ultimately show ?case by blast
qed


lemma takeWhile_prefix_stop:
  "\<forall>x \<in> set ws. P x \<Longrightarrow> r \<noteq> [] \<Longrightarrow> \<not> P (hd r) \<Longrightarrow>
     takeWhile P (ws @ r) = ws \<and> dropWhile P (ws @ r) = r"
  by (cases r) (simp_all add: takeWhile_append dropWhile_append)

lemma strtol_accepts:
  assumes ws: "\<forall>c \<in> set ws. isspace c"
    and sg: "sg = [] \<or> sg = ''+'' \<or> sg = ''-''"
    and ds: "ds \<noteq> []" "\<forall>c \<in> set ds. isdigit c"
  shows "strtol (ws @ sg @ ds) = (strtol_value sg ds, length (ws @ sg @ ds))"
proof -
  let ?s = "ws @ sg @ ds"
  have hd_ds: "isdigit (hd ds)" using ds by (cases ds) auto
  have noNUL: "\<forall>c \<in> set ?s. c \<noteq> NUL"
    using ws sg ds(2) space_facts(1) digit_facts(1) NUL_facts by auto
  then have cs: "c_str ?s = ?s" unfolding c_str_def by (simp only: takeWhile_eq_all_conv [THEN iffD2])
  have r_ne: "sg @ ds \<noteq> []" using ds by simp
  have hd_r: "\<not> isspace (hd (sg @ ds))"
    using sg hd_ds digit_facts(2) sign_facts by auto
  have tw: "takeWhile isspace ?s = ws" "dropWhile isspace ?s = sg @ ds"
    using takeWhile_prefix_stop [OF ws r_ne hd_r] by simp_all
  have td: "takeWhile isdigit ds = ds" using ds(2) by (simp add: takeWhile_eq_all_conv)
  from sg consider "sg = []" | "sg = ''+''" | "sg = ''-''" by blast
  then show ?thesis
  proof cases
    case 1
    have "hd ds \<noteq> CHR ''-''" "hd ds \<noteq> CHR ''+''" using hd_ds digit_facts by auto
    with 1 ds show ?thesis
      unfolding strtol_def Let_def cs tw by (simp add: strtol_value_def td)
  next
    case 2
    with ds show ?thesis
      unfolding strtol_def Let_def cs tw by (simp add: strtol_value_def td)
  next
    case 3
    with ds show ?thesis
      unfolding strtol_def Let_def cs tw by (simp add: strtol_value_def td)
  qed
qed

lemma strtol_decompose:
  assumes "s \<noteq> []" and "snd (strtol s) = length s"
  shows "\<exists>ws sg ds. s = ws @ sg @ ds \<and> (\<forall>c \<in> set ws. isspace c) \<and>
           (sg = [] \<or> sg = ''+'' \<or> sg = ''-'') \<and> ds \<noteq> [] \<and> (\<forall>c \<in> set ds. isdigit c)"
proof -
  let ?r1 = "dropWhile isspace s"
  let ?sg = "?r1 \<noteq> [] \<and> (hd ?r1 = CHR ''-'' \<or> hd ?r1 = CHR ''+'')"
  let ?ds = "digits_after_sign s"
  from strtol_end_iff [OF assms(1)] assms(2)
  have ds: "?ds \<noteq> []" "\<forall>c \<in> set ?ds. isdigit c" by auto
  have ws: "\<forall>c \<in> set (takeWhile isspace s). isspace c"
    by (auto dest: set_takeWhileD)
  have s: "s = takeWhile isspace s @ ?r1" by simp
  show ?thesis
  proof (cases ?sg)
    case True
    then obtain c cs where r1: "?r1 = c # cs" "c = CHR ''-'' \<or> c = CHR ''+''"
      by (cases ?r1) auto
    then have "?ds = cs" by (simp add: digits_after_sign_def Let_def)
    with r1 have "?r1 = [c] @ ?ds" by simp
    with s have "s = takeWhile isspace s @ [c] @ ?ds" by simp
    moreover have "[c] = [] \<or> [c] = ''+'' \<or> [c] = ''-''" using r1(2) by auto
    ultimately show ?thesis using ws ds by blast
  next
    case False
    then have "?ds = ?r1" by (auto simp add: digits_after_sign_def Let_def)
    with s have "s = takeWhile isspace s @ [] @ ?ds" by simp
    then show ?thesis using ws ds by blast
  qed
qed

lemma strtol_value_small:
  assumes "\<forall>c \<in> set ds. isdigit c" and "length ds \<le> 10"
  shows "strtol_value sg ds = (if sg = ''-'' then - decimal 0 ds else decimal 0 ds)"
proof -
  have b: "0 \<le> decimal 0 ds \<and> decimal 0 ds < (0 + 1) * 10 ^ length ds"
    using decimal_bounds [OF assms(1), of 0] by simp
  have "(10::int) ^ length ds \<le> 10 ^ 10"
    using assms(2) by (rule power_increasing) simp
  with b have "decimal 0 ds < 10 ^ 10" by simp
  with b show ?thesis by (simp add: strtol_value_def LONG_MAX_def)
qed

text \<open>
  C9, as the code has it. \<open>parse_ttl\<close> is \<open>strtol\<close> on the first ten bytes, so it
  accepts exactly the fields made of white space, then at most one sign, then at least one
  digit with digits up to the tenth byte; the result is the signed decimal value, taken
  through a 32-bit \<open>int\<close>. Every other field (a NUL, no digit, a byte that is no digit
  behind the first digit) is refused with \<open>ERANGE\<close>.
\<close>

theorem parse_ttl_grammar:
  "length buf > 10 \<longrightarrow>
   (parse_ttl buf = Inr t \<longleftrightarrow>
      (\<exists>ws sg ds. take 10 buf = ws @ sg @ ds \<and> (\<forall>c \<in> set ws. isspace c) \<and>
         (sg = [] \<or> sg = ''+'' \<or> sg = ''-'') \<and> ds \<noteq> [] \<and> (\<forall>c \<in> set ds. isdigit c) \<and>
         t = sint (word_of_int (if sg = ''-'' then - decimal 0 ds else decimal 0 ds) :: 32 word))) \<and>
   ((\<forall>t'. parse_ttl buf \<noteq> Inr t') \<longrightarrow> parse_ttl buf = Inl ERANGE)"
proof (intro impI)
  assume len: "length buf > 10"
  let ?s = "take 10 buf"
  have ne: "?s \<noteq> []" and l10: "length ?s = 10" using len by auto
  have st: "strtol (buf[TTL_LEN := NUL]) = strtol ?s"
    using strtol_update_NUL [of 10 buf] len by (simp add: TTL_LEN_def)
  have p: "parse_ttl buf =
      (if snd (strtol ?s) \<noteq> 10 then Inl ERANGE
       else Inr (sint (word_of_int (fst (strtol ?s)) :: 32 word)))"
    unfolding parse_ttl_def st by (simp add: TTL_LEN_def split: prod.splits)
  let ?G = "\<lambda>ws sg ds. ?s = ws @ sg @ ds \<and> (\<forall>c \<in> set ws. isspace c) \<and>
         (sg = [] \<or> sg = ''+'' \<or> sg = ''-'') \<and> ds \<noteq> [] \<and> (\<forall>c \<in> set ds. isdigit c)"
  have val: "strtol ?s = (if sg = ''-'' then - decimal 0 ds else decimal 0 ds, 10)"
    if g: "?G ws sg ds" for ws sg ds
  proof -
    have "length ds \<le> 10" using g l10 by (metis length_append le_add2 trans_le_add2)
    with g strtol_value_small [of ds sg] have "strtol_value sg ds = (if sg = ''-'' then - decimal 0 ds else decimal 0 ds)"
      by blast
    moreover have "strtol (ws @ sg @ ds) = (strtol_value sg ds, length (ws @ sg @ ds))"
      using g by (intro strtol_accepts) blast+
    ultimately show ?thesis using g l10 by simp
  qed
  have fwd: "\<exists>ws sg ds. ?G ws sg ds \<and>
         t = sint (word_of_int (if sg = ''-'' then - decimal 0 ds else decimal 0 ds) :: 32 word)"
    if r: "parse_ttl buf = Inr t"
  proof -
    from r p have e: "snd (strtol ?s) = 10" and tv: "t = sint (word_of_int (fst (strtol ?s)) :: 32 word)"
      by (auto split: if_splits)
    from strtol_decompose [OF ne] e l10 obtain ws sg ds where g: "?G ws sg ds" by auto
    from val [OF g] tv have "t = sint (word_of_int (if sg = ''-'' then - decimal 0 ds else decimal 0 ds) :: 32 word)"
      by simp
    with g show ?thesis by blast
  qed
  have bwd: "parse_ttl buf = Inr t"
    if g: "?G ws sg ds" and tv: "t = sint (word_of_int (if sg = ''-'' then - decimal 0 ds else decimal 0 ds) :: 32 word)"
    for ws sg ds
    using val [OF g] tv p by simp
  have err: "parse_ttl buf = Inl ERANGE" if "\<forall>t'. parse_ttl buf \<noteq> Inr t'"
    using that p by (auto split: if_splits)
  show "(parse_ttl buf = Inr t \<longleftrightarrow>
      (\<exists>ws sg ds. take 10 buf = ws @ sg @ ds \<and> (\<forall>c \<in> set ws. isspace c) \<and>
         (sg = [] \<or> sg = ''+'' \<or> sg = ''-'') \<and> ds \<noteq> [] \<and> (\<forall>c \<in> set ds. isdigit c) \<and>
         t = sint (word_of_int (if sg = ''-'' then - decimal 0 ds else decimal 0 ds) :: 32 word))) \<and>
   ((\<forall>t'. parse_ttl buf \<noteq> Inr t') \<longrightarrow> parse_ttl buf = Inl ERANGE)"
    using fwd bwd err by blast
qed

theorem parse_ttl_grammar_witness:
  "length (''+000000005'' @ [NL]) > 10 \<and>
   parse_ttl (''+000000005'' @ [NL]) = Inr 5 \<and>
   parse_ttl (''00000000a5'' @ [NL]) = Inl ERANGE"
proof -
  let ?b = "''+000000005'' @ [NL]"
  let ?c = "''00000000a5'' @ [NL]"
  have len: "length ?b > 10" "length ?c > 10" by simp_all
  have g: "\<exists>ws sg ds. take 10 ?b = ws @ sg @ ds \<and> (\<forall>c \<in> set ws. isspace c) \<and>
         (sg = [] \<or> sg = ''+'' \<or> sg = ''-'') \<and> ds \<noteq> [] \<and> (\<forall>c \<in> set ds. isdigit c) \<and>
         (5::int) = sint (word_of_int (if sg = ''-'' then - decimal 0 ds else decimal 0 ds) :: 32 word)"
    by (rule exI [of _ "[]"], rule exI [of _ "''+''"], rule exI [of _ "''000000005''"])
       (simp add: isdigit_def)
  have a: "parse_ttl ?b = Inr 5"
    using parse_ttl_grammar [of ?b 5] len(1) g by blast
  have "\<forall>t'. parse_ttl ?c \<noteq> Inr t'"
    by (simp add: parse_ttl_def strtol_def c_str_def TTL_LEN_def NUL_def NL_def isspace_def isdigit_def)
  then have b: "parse_ttl ?c = Inl ERANGE"
    using parse_ttl_grammar [of ?c 0] len(2) by blast
  from len a b show ?thesis by blast
qed

text \<open>
  C9 as the specification words it fails: a sign or leading white space among the ten
  bytes is accepted, and the field yields a TTL, which may be negative.
\<close>

theorem parse_ttl_sign_space_counterexample:
  "\<not> isdigit CHR ''+'' \<and> parse_ttl (''+000000005'' @ [NL]) = Inr 5 \<and>
   \<not> isdigit CHR '' '' \<and> parse_ttl (''   0000005'' @ [NL]) = Inr 5 \<and>
   parse_ttl (''-000000005'' @ [NL]) = Inr (- 5)"
  by (simp add: parse_ttl_def strtol_def c_str_def TTL_LEN_def NUL_def NL_def isspace_def isdigit_def LONG_MAX_def)

subsection \<open>Reading back what was written\<close>

lemma length_ttl_digits: "length (ttl_digits n t) = n"
  by (induction n arbitrary: t) simp_all

lemma decimal_snoc: "decimal acc (cs @ [c]) = 10 * decimal acc cs + (of_char c - 48)"
  by (induction cs arbitrary: acc) simp_all

lemma of_char_digit: "0 \<le> t \<Longrightarrow> (of_char (char_of (48 + t mod 10 :: int)) :: int) = 48 + t mod 10"
proof -
  assume "0 \<le> t"
  have "0 \<le> t mod 10" "t mod 10 < 10" by simp_all
  then have "(48 + t mod 10) mod 256 = 48 + t mod 10" by simp
  then show ?thesis by simp
qed

lemma decimal_ttl_digits: "0 \<le> t \<Longrightarrow> decimal 0 (ttl_digits n t) = t mod 10 ^ n"
proof (induction n arbitrary: t)
  case 0
  then show ?case by simp
next
  case (Suc n)
  have "0 \<le> t div 10" using Suc.prems by simp
  then have ih: "decimal 0 (ttl_digits n (t div 10)) = (t div 10) mod 10 ^ n" by (rule Suc.IH)
  have "decimal 0 (ttl_digits (Suc n) t) = 10 * ((t div 10) mod 10 ^ n) + t mod 10"
    using ih of_char_digit [OF Suc.prems] by (simp add: decimal_snoc)
  also have "\<dots> = t mod 10 ^ Suc n"
    using zmod_zmult2_eq [of "10 ^ n" t 10] by simp
  finally show ?case .
qed

lemma isdigit_ttl_digits: "0 \<le> t \<Longrightarrow> \<forall>c \<in> set (ttl_digits n t). isdigit c"
proof (induction n arbitrary: t)
  case 0
  then show ?case by simp
next
  case (Suc n)
  have d: "isdigit (char_of (48 + t mod 10))"
    unfolding isdigit_int using of_char_digit [OF Suc.prems] by simp
  have "0 \<le> t div 10" using Suc.prems by simp
  with Suc.IH d show ?case by simp
qed

lemma sint_small: "0 \<le> t \<Longrightarrow> t < 2 ^ 31 \<Longrightarrow> sint (word_of_int t :: 32 word) = t"
  by (simp add: sint_sbintrunc' signed_take_bit_int_eq_self)

lemma parse_ttl_digits:
  assumes "0 \<le> t" "t < 2 ^ 31" "take 10 buf = ttl_digits 10 t" "length buf > 10"
  shows "parse_ttl buf = Inr t"
proof -
  have st: "strtol (buf[TTL_LEN := NUL]) = strtol (ttl_digits 10 t)"
    using strtol_update_NUL [of 10 buf] assms(3,4) by (simp add: TTL_LEN_def)
  have dg: "\<forall>c \<in> set (ttl_digits 10 t). isdigit c" using assms(1) by (rule isdigit_ttl_digits)
  have ne: "ttl_digits 10 t \<noteq> []" using length_ttl_digits [of 10 t] by auto
  have "strtol ([] @ [] @ ttl_digits 10 t) = (strtol_value [] (ttl_digits 10 t), length ([] @ [] @ ttl_digits 10 t))"
    by (rule strtol_accepts) (use dg ne in simp_all)
  then have s: "strtol (ttl_digits 10 t) = (strtol_value [] (ttl_digits 10 t), 10)"
    by (simp add: length_ttl_digits)
  have "strtol_value [] (ttl_digits 10 t) = decimal 0 (ttl_digits 10 t)"
    using strtol_value_small [OF dg, of "[]"] by (simp add: length_ttl_digits)
  also have "\<dots> = t mod 10 ^ 10" using assms(1) by (rule decimal_ttl_digits)
  also have "\<dots> = t" using assms(1,2) by simp
  finally have v: "strtol_value [] (ttl_digits 10 t) = t" .
  show ?thesis
    unfolding parse_ttl_def st s v using sint_small [OF assms(1,2)] by (simp add: TTL_LEN_def)
qed


lemma length_record_buf:
  "length val \<le> 106 \<Longrightarrow> length un \<le> 10 \<Longrightarrow> length (record_buf val un ttl) = 128"
  by (simp add: record_buf_def length_ttl_digits TTL_LEN_def UNIT_LEN_def PAYLOAD_LEN_def)

lemma take_record_buf: "take 10 (record_buf val un ttl) = ttl_digits 10 (if ttl < 0 then 0 else ttl)"
  by (simp add: record_buf_def length_ttl_digits TTL_LEN_def)

lemma unit_end_walk:
  assumes c: "c \<noteq> CHR '' ''" "c \<noteq> NL"
    and sp: "\<forall>x \<in> set sp. x = CHR '' '' \<or> x = NL"
    and k: "k \<le> length sp"
  shows "unit_end (pre @ c # sp @ rest) (length pre + k) = Some (length pre)"
  using k
proof (induction k)
  case 0
  show ?case using c by (cases "length pre") (simp_all add: nth_append)
next
  case (Suc k)
  then have k: "k < length sp" "k \<le> length sp" by simp_all
  have "(pre @ c # sp @ rest) ! Suc (length pre + k) = sp ! k"
    using k by (simp add: nth_append)
  moreover have "sp ! k = CHR '' '' \<or> sp ! k = NL" using sp k by simp
  ultimately show ?case using Suc.IH [OF k(2)] by simp
qed

lemma c_str_stop: "NUL \<notin> set xs \<Longrightarrow> c_str (xs @ NUL # ys) = xs"
  by (auto simp add: c_str_def takeWhile_tail)

lemma dup_str_at:
  assumes "NUL \<notin> set xs" "length pre = off"
  shows "dup_str (pre @ xs @ NUL # ys) off behind = xs"
  using assms c_str_stop [of xs "ys @ behind"] by (simp add: dup_str_def)

text \<open>The record that \<open>write_value\<close> builds, with byte \<open>TTL_LEN\<close> set to NUL, decoded.\<close>

lemma decode_written_record:
  fixes val un behind :: string and ttl :: int
  assumes lv: "length val < 106" and lu: "length un \<le> 10"
    and nv: "NUL \<notin> set val" and nu: "NUL \<notin> set un"
    and tr: "un = [] \<or> (last un \<noteq> CHR '' '' \<and> last un \<noteq> NL)"
  defines "buf \<equiv> (record_buf val un ttl)[TTL_LEN := NUL]"
  shows "unit_end buf (UNIT_START + UNIT_LEN) = Some (10 + length un)"
    and "dup_str (buf[Suc (10 + length un) := NUL]) UNIT_START behind = un"
    and "dup_str (buf[Suc (10 + length un) := NUL]) PAYLOAD_START behind = val"
    and "dup_str buf PAYLOAD_START behind = val"
proof -
  let ?D = "ttl_digits 10 (if ttl < 0 then 0 else ttl)"
  let ?sp = "replicate (10 - length un) CHR '' ''"
  let ?Z = "replicate (105 - length val) NUL"
  have lD: "length ?D = 10" by (rule length_ttl_digits)
  have Z: "replicate (PAYLOAD_LEN - length val) NUL = NUL # ?Z"
    using lv by (simp add: PAYLOAD_LEN_def Suc_diff_Suc flip: replicate_Suc)
  have rb: "record_buf val un ttl = ?D @ NL # un @ ?sp @ NL # val @ NUL # ?Z"
    unfolding record_buf_def Z by (simp add: TTL_LEN_def UNIT_LEN_def)
  have buf: "buf = ?D @ NUL # un @ ?sp @ NL # val @ NUL # ?Z"
    unfolding buf_def rb using lD by (simp add: TTL_LEN_def list_update_append)
  have sp: "\<forall>x \<in> set (?sp @ [NL]). x = CHR '' '' \<or> x = NL" by auto
  show ue: "unit_end buf (UNIT_START + UNIT_LEN) = Some (10 + length un)"
  proof (cases "un = []")
    case True
    have "unit_end (?D @ NUL # (?sp @ [NL]) @ (val @ NUL # ?Z)) (length ?D + 11) = Some (length ?D)"
      by (rule unit_end_walk) (use sp True in \<open>simp_all add: NUL_def NL_def\<close>)
    then show ?thesis using True lD by (simp add: buf UNIT_START_def UNIT_LEN_def)
  next
    case False
    then have un: "un = butlast un @ [last un]" by simp
    let ?pre = "?D @ NUL # butlast un"
    have lp: "length ?pre = 10 + length un" using lD False by (simp add: Suc_pred' length_greater_0_conv)
    have A: "unit_end (?pre @ last un # (?sp @ [NL]) @ (val @ NUL # ?Z)) (length ?pre + (11 - length un))
            = Some (length ?pre)"
      by (rule unit_end_walk) (use sp tr False lu in simp_all)
    have B: "?pre @ last un # (?sp @ [NL]) @ (val @ NUL # ?Z) = buf"
      unfolding buf using un by (metis append.assoc append_Cons append_Nil)
    have C: "length ?pre + (11 - length un) = UNIT_START + UNIT_LEN"
      using lp lu by (simp add: UNIT_START_def UNIT_LEN_def)
    have A': "unit_end buf (length ?pre + (11 - length un)) = Some (length ?pre)"
      using A unfolding B .
    have A'': "unit_end buf (UNIT_START + UNIT_LEN) = Some (length ?pre)"
      using A' unfolding C .
    show ?thesis using A'' unfolding lp .
  qed
  obtain x sp' where xs: "?sp @ [NL] = x # sp'" by (cases "?sp @ [NL]") auto
  have buf2: "buf = (?D @ NUL # un) @ x # sp' @ val @ NUL # ?Z"
    unfolding buf using xs by (metis append.assoc append_Cons append_Nil)
  have l2: "length (?D @ NUL # un) = Suc (10 + length un)" using lD by simp
  have upd: "buf[Suc (10 + length un) := NUL] = (?D @ [NUL]) @ un @ NUL # sp' @ val @ NUL # ?Z"
    unfolding buf2 l2 [symmetric] by (simp only: list_update_length) simp
  show "dup_str (buf[Suc (10 + length un) := NUL]) UNIT_START behind = un"
    unfolding upd by (rule dup_str_at) (use nu lD in \<open>simp_all add: UNIT_START_def\<close>)
  have lsp: "length sp' = 10 - length un"
    using arg_cong [OF xs, of length] by simp
  have upd2: "buf[Suc (10 + length un) := NUL] = (?D @ NUL # un @ NUL # sp') @ val @ NUL # ?Z"
    unfolding upd by simp
  show "dup_str (buf[Suc (10 + length un) := NUL]) PAYLOAD_START behind = val"
    unfolding upd2 by (rule dup_str_at) (use nv lD lsp lu in \<open>simp_all add: PAYLOAD_START_def\<close>)
  have buf3: "buf = (?D @ NUL # un @ ?sp @ [NL]) @ val @ NUL # ?Z"
    unfolding buf by simp
  show "dup_str buf PAYLOAD_START behind = val"
    unfolding buf3 by (rule dup_str_at) (use nv lD lu in \<open>simp_all add: PAYLOAD_START_def\<close>)
qed


lemma lookup_store_entry: "lookup (store_entry name f d) name = Some f"
proof (cases "name \<in> fst ` set d")
  case True
  have "name \<in> fst ` set d' \<Longrightarrow>
        map_of (map (\<lambda>e. if fst e = name then (name, f) else e) d') name = Some f" for d'
    by (induction d') auto
  with True show ?thesis by (simp add: lookup_def store_entry_def)
next
  case False
  then have "map_of d name = None" by (simp add: map_of_eq_None_iff)
  with False show ?thesis by (simp add: lookup_def store_entry_def map_add_def)
qed

lemma shm_entry_not_dir: "shm_entry fn = Some name \<Longrightarrow> c_str fn \<noteq> shm_dir @ ''/''"
  by (auto simp: shm_entry_def Let_def split: if_splits)

lemma write_value_Some:
  assumes lv: "length val \<le> 106" and lu: "length un \<le> 10" and e: "shm_entry fn = Some name"
  shows "\<exists>f. write_value t0 fn val un ttl (Some d) = Inr (Some (store_entry name f d)) \<and>
           st_mtime f = t0 \<and> take 128 (bytes f) = record_buf val un ttl \<and>
           128 \<le> length (bytes f)"
proof -
  define f0 where "f0 = (case lookup d name of Some f \<Rightarrow> f
      | None \<Rightarrow> \<lparr>st_dev = 0, st_ino = fresh_ino d, st_mtime = t0, bytes = []\<rparr>)"
  define f where "f = f0\<lparr>st_mtime := t0, bytes := pwrite0 (record_buf val un ttl) (bytes f0)\<rparr>"
  have w: "write_value t0 fn val un ttl (Some d) = Inr (Some (store_entry name f d))"
    using lv lu e shm_entry_not_dir [OF e]
    by (simp add: write_value_def PAYLOAD_LEN_def UNIT_LEN_def f_def f0_def Let_def)
  have l: "length (record_buf val un ttl) = 128" using lv lu by (rule length_record_buf)
  have "take 128 (bytes f) = record_buf val un ttl" "128 \<le> length (bytes f)" "st_mtime f = t0"
    using l by (simp_all add: f_def pwrite0_def)
  with w show ?thesis by blast
qed

lemma write_value_file:
  assumes "write_value t0 fn val un ttl s = Inr s'"
  shows "length val \<le> 106 \<and> length un \<le> 10 \<and>
         (\<exists>d name f. s' = Some d \<and> shm_entry fn = Some name \<and> lookup d name = Some f \<and>
            st_mtime f = t0 \<and> take 128 (bytes f) = record_buf val un ttl \<and>
            128 \<le> length (bytes f))"
proof -
  from assms have lv: "length val \<le> 106" and lu: "length un \<le> 10"
    by (auto simp: write_value_def PAYLOAD_LEN_def UNIT_LEN_def split: if_splits)
  from assms lv lu obtain d name where s: "s = Some d" and e: "shm_entry fn = Some name"
    by (auto simp: write_value_def PAYLOAD_LEN_def UNIT_LEN_def split: option.splits if_splits)
  from write_value_Some [OF lv lu e, of t0 ttl d] obtain f where
    f: "write_value t0 fn val un ttl (Some d) = Inr (Some (store_entry name f d))"
      "st_mtime f = t0" "take 128 (bytes f) = record_buf val un ttl" "128 \<le> length (bytes f)"
    by blast
  from f(1) assms s have s': "s' = Some (store_entry name f d)" by simp
  with f e lookup_store_entry [of name f d] lv lu show ?thesis by blast
qed

lemma read_value_stale_iff:
  assumes "shm_entry fn = Some name" "lookup d name = Some f" "128 \<le> length (bytes f)"
    and "parse_ttl ((take 128 (bytes f))[TTL_LEN := NUL]) = Inr T"
  shows "read_value now fn nu behind (Some d) = Inl ESTALE \<longleftrightarrow> T \<noteq> 0 \<and> now - st_mtime f > T"
  using assms shm_entry_not_dir [OF assms(1)]
  by (auto simp: read_value_def read_buf_def PAYLOAD_START_def PAYLOAD_LEN_def Let_def
           split: option.splits sum.splits if_splits)

lemma read_value_fresh:
  assumes "shm_entry fn = Some name" "lookup d name = Some f" "128 \<le> length (bytes f)"
    and "parse_ttl ((take 128 (bytes f))[TTL_LEN := NUL]) = Inr T"
    and "\<not> (T \<noteq> 0 \<and> now - st_mtime f > T)"
    and "unit_end ((take 128 (bytes f))[TTL_LEN := NUL]) (UNIT_START + UNIT_LEN) = Some j"
  shows "read_value now fn nu behind (Some d) =
     (if nu then
        Inr (dup_str ((take 128 (bytes f))[TTL_LEN := NUL, Suc j := NUL]) PAYLOAD_START behind,
             Some (dup_str ((take 128 (bytes f))[TTL_LEN := NUL, Suc j := NUL]) UNIT_START behind))
      else Inr (dup_str ((take 128 (bytes f))[TTL_LEN := NUL]) PAYLOAD_START behind, None))"
  using assms shm_entry_not_dir [OF assms(1)]
  by (auto simp: read_value_def read_buf_def PAYLOAD_START_def PAYLOAD_LEN_def Let_def)

lemma parse_ttl_update: "length buf > 10 \<Longrightarrow> parse_ttl (buf[TTL_LEN := NUL]) = parse_ttl buf"
  by (simp add: parse_ttl_def)

lemma parse_ttl_record_buf:
  assumes "ttl < 2 ^ 31" "length val \<le> 106" "length un \<le> 10"
  shows "parse_ttl ((record_buf val un ttl)[TTL_LEN := NUL]) = Inr (if ttl < 0 then 0 else ttl)"
proof -
  let ?t = "if ttl < 0 then 0 else ttl"
  have l: "length (record_buf val un ttl) = 128" using assms(2,3) by (rule length_record_buf)
  have "parse_ttl (record_buf val un ttl) = Inr ?t"
    by (rule parse_ttl_digits) (use assms(1) l in \<open>simp_all add: take_record_buf\<close>)
  then show ?thesis using l by (simp add: parse_ttl_update)
qed


lemma unit_end_pos:
  "0 < n \<Longrightarrow> unit_end buf n =
     (if buf ! n = CHR '' '' \<or> buf ! n = NL then unit_end buf (n - 1) else Some n)"
  by (cases n) simp_all

lemma unit_end_range:
  assumes "buf ! 10 \<noteq> CHR '' ''" "buf ! 10 \<noteq> NL"
  shows "\<exists>j. unit_end buf (10 + k) = Some j \<and> 10 \<le> j \<and> j \<le> 10 + k"
proof (induction k)
  case 0
  have "unit_end buf 10 = Some 10" using assms by (simp add: unit_end_pos)
  then show ?case by simp
next
  case (Suc k)
  then obtain j where j: "unit_end buf (10 + k) = Some j" "10 \<le> j" "j \<le> 10 + k" by blast
  have e: "10 + Suc k = Suc (10 + k)" by simp
  have step: "unit_end buf (Suc (10 + k)) =
      (if buf ! Suc (10 + k) = CHR '' '' \<or> buf ! Suc (10 + k) = NL
       then unit_end buf (10 + k) else Some (Suc (10 + k)))"
    by (rule unit_end.simps(2))
  show ?case unfolding e step using j by auto
qed

lemma nth_in_drop: "n \<le> i \<Longrightarrow> i < length xs \<Longrightarrow> xs ! i \<in> set (drop n xs)"
proof -
  assume a: "n \<le> i" "i < length xs"
  then have "drop n xs ! (i - n) = xs ! i" by simp
  moreover have "i - n < length (drop n xs)" using a by simp
  ultimately show ?thesis by (metis nth_mem)
qed

text \<open>
  The unit loop stops inside the buffer: byte \<open>TTL_LEN\<close> holds a NUL when it starts.
\<close>

lemma unit_end_after_NUL:
  assumes "10 < length buf0"
  shows "\<exists>j. unit_end (buf0[TTL_LEN := NUL]) (UNIT_START + UNIT_LEN) = Some j \<and> 10 \<le> j \<and> j \<le> 21"
proof -
  have "(buf0[TTL_LEN := NUL]) ! 10 = NUL" using assms by (simp add: TTL_LEN_def)
  then have "(buf0[TTL_LEN := NUL]) ! 10 \<noteq> CHR '' ''" "(buf0[TTL_LEN := NUL]) ! 10 \<noteq> NL"
    by (simp_all add: NUL_def NL_def)
  from unit_end_range [OF this, of 11] show ?thesis
    by (simp add: UNIT_START_def UNIT_LEN_def)
qed

lemma read_value_in_bounds: "read_value now fn nu behind s \<noteq> Inl OutOfBounds"
proof (cases "\<exists>d name st. s = Some d \<and> shm_entry fn = Some name \<and> lookup d name = Some st \<and>
                128 \<le> length (bytes st)")
  case True
  then obtain d name st where h: "s = Some d" "shm_entry fn = Some name" "lookup d name = Some st"
    "128 \<le> length (bytes st)" by blast
  have "10 < length (take 128 (bytes st))" using h(4) by simp
  from unit_end_after_NUL [OF this] obtain j where
    "unit_end ((take 128 (bytes st))[TTL_LEN := NUL]) (UNIT_START + UNIT_LEN) = Some j" by blast
  with h shm_entry_not_dir [OF h(2)] show ?thesis
    by (auto simp: read_value_def read_buf_def PAYLOAD_START_def PAYLOAD_LEN_def Let_def
             parse_ttl_def split: sum.splits prod.splits if_splits)
next
  case False
  then show ?thesis
    by (auto simp: read_value_def read_buf_def PAYLOAD_START_def PAYLOAD_LEN_def Let_def
             parse_ttl_def split: option.splits sum.splits prod.splits if_splits)
qed

lemma read_after_write_value:
  assumes w: "write_value t0 fn val un ttl s = Inr s'" and int: "ttl < 2 ^ 31"
  shows "(read_value now fn nu behind s' = Inl ESTALE \<longleftrightarrow> 0 < ttl \<and> now - t0 > ttl)"
    and "\<not> (0 < ttl \<and> now - t0 > ttl) \<Longrightarrow> \<exists>r. read_value now fn nu behind s' = Inr r"
    and "length val < 106 \<Longrightarrow> NUL \<notin> set val \<Longrightarrow> NUL \<notin> set un \<Longrightarrow>
         un = [] \<or> (last un \<noteq> CHR '' '' \<and> last un \<noteq> NL) \<Longrightarrow>
         \<not> (0 < ttl \<and> now - t0 > ttl) \<Longrightarrow>
           read_value now fn nu behind s' = Inr (val, if nu then Some un else None)"
proof -
  from write_value_file [OF w] obtain d name f where
    lv: "length val \<le> 106" and lu: "length un \<le> 10" and s': "s' = Some d" and
    e: "shm_entry fn = Some name" "lookup d name = Some f" "128 \<le> length (bytes f)" and
    mt: "st_mtime f = t0" and tk: "take 128 (bytes f) = record_buf val un ttl"
    by blast
  let ?T = "if ttl < 0 then 0 else ttl"
  have p: "parse_ttl ((take 128 (bytes f))[TTL_LEN := NUL]) = Inr ?T"
    unfolding tk using int lv lu by (rule parse_ttl_record_buf)
  have st: "(?T \<noteq> 0 \<and> now - st_mtime f > ?T) \<longleftrightarrow> (0 < ttl \<and> now - t0 > ttl)"
    using mt by auto
  show "(read_value now fn nu behind s' = Inl ESTALE \<longleftrightarrow> 0 < ttl \<and> now - t0 > ttl)"
    unfolding s' using read_value_stale_iff [OF e p, where now = now and nu = nu and behind = behind] st by simp
  {
    assume fresh: "\<not> (0 < ttl \<and> now - t0 > ttl)"
    have "10 < length (take 128 (bytes f))" using e(3) by simp
    from unit_end_after_NUL [OF this] obtain j where
      j: "unit_end ((take 128 (bytes f))[TTL_LEN := NUL]) (UNIT_START + UNIT_LEN) = Some j"
      by blast
    have fresh': "\<not> (?T \<noteq> 0 \<and> now - st_mtime f > ?T)" using fresh st by blast
    show "\<exists>r. read_value now fn nu behind s' = Inr r"
      unfolding s' read_value_fresh [OF e p fresh' j] by simp
  }
  {
    assume a: "length val < 106" "NUL \<notin> set val" "NUL \<notin> set un"
      "un = [] \<or> (last un \<noteq> CHR '' '' \<and> last un \<noteq> NL)"
      and fresh: "\<not> (0 < ttl \<and> now - t0 > ttl)"
    note h = a(1) lu a(2) a(3) a(4)
    note dw1 = decode_written_record(1) [OF h, where ttl = ttl, folded tk]
    note dw2 = decode_written_record(2) [OF h, where ttl = ttl and behind = behind, folded tk]
    note dw3 = decode_written_record(3) [OF h, where ttl = ttl and behind = behind, folded tk]
    note dw4 = decode_written_record(4) [OF h, where ttl = ttl and behind = behind, folded tk]
    have fresh': "\<not> (?T \<noteq> 0 \<and> now - st_mtime f > ?T)" using fresh st by blast
    show "read_value now fn nu behind s' = Inr (val, if nu then Some un else None)"
      unfolding s' read_value_fresh [OF e p fresh' dw1] dw2 dw3 dw4 by simp
  }
qed

lemmas shm_consts = DEFAULT_SHM_DIR_def METRIC_SUFFIX_def SUFFIX_LEN_def TTL_LEN_def UNIT_START_def
  UNIT_LEN_def PAYLOAD_START_def PAYLOAD_LEN_def NAME_MAX_def NUL_def NL_def shm_dir_def

lemmas read_eval = read_metric_def prepare_filename_def read_value_def read_buf_def shm_entry_def
  c_str_def lookup_def parse_ttl_def strtol_def isspace_def isdigit_def dup_str_def record_buf_def
  LONG_MAX_def shm_consts Let_def char_of_def numeral_eq_Suc

lemma write_assetA_temp:
  "write_metric t0 ''assetA'' ''temp'' val un ttl (Some []) =
     (if length val > 106 \<or> length un > 10 then Inl EINVAL
      else Inr (Some [(''assetA:temp.metric'',
             \<lparr>st_dev = 0, st_ino = 1, st_mtime = t0, bytes = record_buf val un ttl\<rparr>)]))"
  by (simp add: write_metric_def prepare_filename_def write_value_def shm_entry_def c_str_def
      lookup_def store_entry_def fresh_ino_def pwrite0_def shm_consts Let_def)

text \<open>
  A value of exactly 106 bytes fills the payload: the buffer of \<open>read_value\<close> holds no NUL
  behind it, the copy of the value runs on into the bytes behind the buffer, and the read
  returns 0 with a value that ends in those bytes.
\<close>

lemma read_full_payload_overruns:
  "read_metric 0 ''assetA'' ''temp'' True ''#''
     (Some [(''assetA:temp.metric'',
        \<lparr>st_dev = 0, st_ino = 1, st_mtime = 0,
         bytes = record_buf (replicate 106 CHR ''x'') ''C'' 0\<rparr>)])
     = Inr (replicate 106 CHR ''x'' @ ''#'', Some ''C'')"
  by (simp add: read_eval)






text \<open>
  C2, as the code has it. After a successful \<open>write_metric\<close> with \<open>ttl\<close> zero,
  \<open>read_metric\<close> returns the written value and unit at any later time, when the value is
  shorter than 106 bytes, neither string holds a NUL, and the unit does not end in a space
  or a newline: \<open>read_value\<close> strips the padding of the unit field from the right, and
  with it trailing spaces and newlines of the unit itself.
\<close>

theorem write_read_round_trip:
  assumes "write_metric t0 asset metric val un 0 s = Inr s'"
    and "length val < 106" and "NUL \<notin> set val" and "NUL \<notin> set un"
    and "un = [] \<or> (last un \<noteq> CHR '' '' \<and> last un \<noteq> NL)"
  shows "read_metric now asset metric True behind s' = Inr (val, Some un) \<and>
         read_metric now asset metric False behind s' = Inr (val, None)"
proof -
  from assms(1) obtain fn where fn: "prepare_filename asset metric = Inr fn"
    and w: "write_value t0 fn val un 0 s = Inr s'"
    by (auto simp: write_metric_def split: sum.splits)
  have r: "read_metric now asset metric nu behind s' = read_value now fn nu behind s'" for nu
    by (simp add: read_metric_def fn)
  have "read_value now fn nu behind s' = Inr (val, if nu then Some un else None)" for nu
    by (rule read_after_write_value(3) [OF w]) (use assms in simp_all)
  then show ?thesis unfolding r by simp
qed

theorem write_read_round_trip_witness:
  "write_metric 0 ''assetA'' ''temp'' ''23.5'' ''C'' 0 (Some []) =
     Inr (Some [(''assetA:temp.metric'',
       \<lparr>st_dev = 0, st_ino = 1, st_mtime = 0, bytes = record_buf ''23.5'' ''C'' 0\<rparr>)]) \<and>
   length ''23.5'' < 106 \<and> NUL \<notin> set ''23.5'' \<and> NUL \<notin> set ''C'' \<and>
   last ''C'' \<noteq> CHR '' '' \<and> last ''C'' \<noteq> NL \<and>
   read_metric 5000 ''assetA'' ''temp'' True ''#''
     (Some [(''assetA:temp.metric'',
       \<lparr>st_dev = 0, st_ino = 1, st_mtime = 0, bytes = record_buf ''23.5'' ''C'' 0\<rparr>)])
     = Inr (''23.5'', Some ''C'') \<and>
   read_metric 5000 ''assetA'' ''temp'' False ''#''
     (Some [(''assetA:temp.metric'',
       \<lparr>st_dev = 0, st_ino = 1, st_mtime = 0, bytes = record_buf ''23.5'' ''C'' 0\<rparr>)])
     = Inr (''23.5'', None)"
proof -
  let ?S = "Some [(''assetA:temp.metric'',
       \<lparr>st_dev = 0, st_ino = 1, st_mtime = 0, bytes = record_buf ''23.5'' ''C'' 0\<rparr>)]"
  have w: "write_metric 0 ''assetA'' ''temp'' ''23.5'' ''C'' 0 (Some []) = Inr ?S"
    by (simp add: write_assetA_temp)
  have h: "length ''23.5'' < 106" "NUL \<notin> set ''23.5''" "NUL \<notin> set ''C''"
    "''C'' = [] \<or> (last ''C'' \<noteq> CHR '' '' \<and> last ''C'' \<noteq> NL)"
    by (simp_all add: NUL_def NL_def)
  from write_read_round_trip [OF w h, where now = 5000 and behind = "''#''"] w h show ?thesis by simp
qed

text \<open>
  C2 as the specification words it fails for a unit that ends in a space: the unit
  \<open>''C ''\<close> is within the limit of 10 bytes and comes back as \<open>''C''\<close>.
\<close>

theorem round_trip_trailing_space_counterexample:
  "length ''23.5'' \<le> 106 \<and> length ''C '' \<le> 10 \<and>
   write_metric 0 ''assetA'' ''temp'' ''23.5'' ''C '' 0 (Some []) =
     Inr (Some [(''assetA:temp.metric'',
       \<lparr>st_dev = 0, st_ino = 1, st_mtime = 0, bytes = record_buf ''23.5'' ''C '' 0\<rparr>)]) \<and>
   read_metric 0 ''assetA'' ''temp'' True ''#''
     (Some [(''assetA:temp.metric'',
       \<lparr>st_dev = 0, st_ino = 1, st_mtime = 0, bytes = record_buf ''23.5'' ''C '' 0\<rparr>)])
     = Inr (''23.5'', Some ''C'') \<and> ''C'' \<noteq> ''C ''"
  by (simp add: write_assetA_temp) (simp add: read_eval)

section \<open>Properties of the directory scanner\<close>

lemma read_asset_metrics_loop_Cons:
  "read_asset_metrics_loop now behind d asset (n # rest) (err, m) =
     (if metric_entry asset n then
        (case read_value now (entry_path n) True (behind n) (Some d) of
           Inl e \<Rightarrow> read_asset_metrics_loop now behind d asset rest (err, m)
         | Inr r \<Rightarrow> read_asset_metrics_loop now behind d asset rest
              (0, emplace (metric_key n)
                    \<lparr>metric_value = fst r,
                     metric_unit = (case snd r of None \<Rightarrow> [] | Some u \<Rightarrow> u)\<rparr> m))
      else read_asset_metrics_loop now behind d asset rest (err, m))"
  by (auto simp: metric_entry_def entry_path_def metric_key_def Let_def split: sum.splits prod.splits)

lemma read_loop_fst:
  "fst (read_asset_metrics_loop now behind d asset names (err, m)) = 0 \<longleftrightarrow>
     err = 0 \<or> (\<exists>n \<in> set names. metric_entry asset n \<and>
                 (\<exists>r. read_value now (entry_path n) True (behind n) (Some d) = Inr r))"
proof (induction names arbitrary: err m)
  case Nil
  show ?case by simp
next
  case (Cons n rest)
  show ?case
    unfolding read_asset_metrics_loop_Cons
    by (cases "read_value now (entry_path n) True (behind n) (Some d)") (auto simp: Cons.IH)
qed

lemma read_loop_fst_cases:
  "fst (read_asset_metrics_loop now behind d asset names (err, m)) = 0 \<or>
   read_asset_metrics_loop now behind d asset names (err, m) = (err, m)"
proof (induction names arbitrary: err m)
  case Nil
  show ?case by simp
next
  case (Cons n rest)
  show ?case
  proof (cases "metric_entry asset n")
    case False
    then show ?thesis unfolding read_asset_metrics_loop_Cons using Cons.IH by simp
  next
    case True
    show ?thesis
    proof (cases "read_value now (entry_path n) True (behind n) (Some d)")
      case (Inl e)
      then show ?thesis unfolding read_asset_metrics_loop_Cons using True Cons.IH by simp
    next
      case (Inr r)
      then show ?thesis unfolding read_asset_metrics_loop_Cons using True
        by (simp add: read_loop_fst)
    qed
  qed
qed

lemma take_asset_of: "take (length (asset_of n)) n = asset_of n"
  unfolding asset_of_def by (induction n) auto

lemma split_at_colon:
  assumes "CHR '':'' \<in> set n"
  shows "\<exists>rest. n = asset_of n @ CHR '':'' # rest"
proof -
  let ?r = "dropWhile (\<lambda>c. c \<noteq> CHR '':'') n"
  have ne: "?r \<noteq> []" using assms by (simp add: dropWhile_eq_Nil_conv) 
  then have "hd ?r = CHR '':''" using hd_dropWhile [of "\<lambda>c. c \<noteq> CHR '':''" n] by simp
  with ne have "?r = CHR '':'' # tl ?r" by (cases ?r) auto
  moreover have "n = asset_of n @ ?r" by (simp add: asset_of_def)
  ultimately show ?thesis by metis
qed

lemma metric_entry_name:
  assumes "metric_entry asset n"
  shows "n = asset @ '':'' @ metric_key n @ ''.metric''"
proof -
  from assms have colon: "CHR '':'' \<in> set n" and len: "7 \<le> length n"
    and suf: "drop (length n - 7) n = ''.metric''" and a: "asset_of n = asset"
    by (auto simp: metric_entry_def take_asset_of SUFFIX_LEN_def METRIC_SUFFIX_def)
  from split_at_colon [OF colon] obtain rest where n: "n = asset @ CHR '':'' # rest"
    unfolding a by blast
  have ln: "length n = length asset + 1 + length rest" using arg_cong [OF n, of length] by simp
  have r7: "7 \<le> length rest"
  proof (rule ccontr)
    assume "\<not> 7 \<le> length rest"
    then have k: "length n - 7 \<le> length asset" using ln by simp
    have "drop (length n - 7) (asset @ CHR '':'' # rest) = drop (length n - 7) asset @ CHR '':'' # rest"
      using k by simp
    then have "''.metric'' = drop (length n - 7) asset @ CHR '':'' # rest"
      using suf n by metis
    then have "CHR '':'' \<in> set ''.metric''" by (metis in_set_conv_decomp)
    then show False by simp
  qed
  have dr: "drop (Suc (length asset)) n = rest"
    using arg_cong [OF n, of "drop (Suc (length asset))"] by simp
  have k: "length n - 7 = length asset + Suc (length rest - 7)" using r7 ln by simp
  have "drop (length n - 7) (asset @ CHR '':'' # rest) = drop (length rest - 7) rest"
    unfolding k by simp
  then have suf': "drop (length rest - 7) rest = ''.metric''" using suf n by metis
  have mk: "metric_key n = take (length rest - 7) rest"
    unfolding metric_key_def a dr using ln by (simp add: SUFFIX_LEN_def)
  have "rest = take (length rest - 7) rest @ drop (length rest - 7) rest" by simp
  then have "rest = metric_key n @ ''.metric''" unfolding mk suf' .
  then show ?thesis using n by (metis append_Cons append_Nil)
qed

lemma read_value_unit_Some:
  "read_value now p True behind s = Inr r \<Longrightarrow> \<exists>u. snd r = Some u"
  by (auto simp: read_value_def Let_def split: option.splits sum.splits if_splits)

lemma emplace_Some:
  "emplace k' v' m k = Some v \<Longrightarrow> m k = Some v \<or> (k = k' \<and> v = v')"
  by (auto simp: emplace_def split: if_splits)

lemma read_loop_keys:
  "snd (read_asset_metrics_loop now behind d asset names (err, m)) k = Some v \<Longrightarrow>
     m k = Some v \<or>
     (\<exists>n \<in> set names. metric_entry asset n \<and> k = metric_key n \<and>
        read_value now (entry_path n) True (behind n) (Some d) = Inr (metric_value v, Some (metric_unit v)))"
proof (induction names arbitrary: err m)
  case Nil
  then show ?case by simp
next
  case (Cons n rest)
  show ?case
  proof (cases "metric_entry asset n")
    case False
    with Cons.prems have "snd (read_asset_metrics_loop now behind d asset rest (err, m)) k = Some v"
      unfolding read_asset_metrics_loop_Cons by simp
    from Cons.IH [OF this] show ?thesis by auto
  next
    case True
    show ?thesis
    proof (cases "read_value now (entry_path n) True (behind n) (Some d)")
      case (Inl e)
      with True Cons.prems have "snd (read_asset_metrics_loop now behind d asset rest (err, m)) k = Some v"
        unfolding read_asset_metrics_loop_Cons by simp
      from Cons.IH [OF this] show ?thesis by auto
    next
      case (Inr r)
      from read_value_unit_Some [OF Inr] obtain u where u: "snd r = Some u" by blast
      let ?v = "\<lparr>metric_value = fst r, metric_unit = u\<rparr>"
      from True Inr u Cons.prems
      have "snd (read_asset_metrics_loop now behind d asset rest (0, emplace (metric_key n) ?v m)) k = Some v"
        unfolding read_asset_metrics_loop_Cons by simp
      from Cons.IH [OF this] consider
        "emplace (metric_key n) ?v m k = Some v"
        | "\<exists>n \<in> set rest. metric_entry asset n \<and> k = metric_key n \<and>
             read_value now (entry_path n) True (behind n) (Some d) = Inr (metric_value v, Some (metric_unit v))"
        by blast
      then show ?thesis
      proof cases
        case 1
        from emplace_Some [OF 1] show ?thesis
        proof
          assume "m k = Some v" then show ?thesis by simp
        next
          assume kv: "k = metric_key n \<and> v = ?v"
          then have "read_value now (entry_path n) True (behind n) (Some d) = Inr (metric_value v, Some (metric_unit v))"
            using Inr u by (cases r) simp
          with True kv show ?thesis by auto
        qed
      next
        case 2
        then show ?thesis by auto
      qed
    qed
  qed
qed

lemma find_assets_loop_inv:
  assumes "seen = set assets" "distinct assets"
  shows "fst (find_assets_loop names (seen, assets)) = set (snd (find_assets_loop names (seen, assets))) \<and>
         distinct (snd (find_assets_loop names (seen, assets))) \<and>
         set (snd (find_assets_loop names (seen, assets))) =
           set assets \<union> asset_of ` {n \<in> set names. CHR '':'' \<in> set n}"
  using assms
proof (induction names arbitrary: seen assets)
  case Nil
  then show ?case by simp
next
  case (Cons n rest)
  show ?case
  proof (cases "CHR '':'' \<notin> set n")
    case True
    with Cons.IH [OF Cons.prems] show ?thesis by auto
  next
    case False
    show ?thesis
    proof (cases "asset_of n \<in> seen")
      case True
      with False Cons.IH [OF Cons.prems] Cons.prems show ?thesis by auto
    next
      case new: False
      have p: "insert (asset_of n) seen = set (assets @ [asset_of n])" "distinct (assets @ [asset_of n])"
        using Cons.prems new by auto
      from False new Cons.IH [OF p] show ?thesis by auto
    qed
  qed
qed

lemmas scan_eval = read_asset_metrics_def find_assets_def asset_of_def emplace_def zeroed_def

text \<open>
  C5, as the code has it. \<open>read_asset_metrics\<close> starts with \<open>err = -1\<close> and sets it to
  0 only when a record has been read: with a directory that cannot be opened it returns
  \<open>-1\<close> and leaves the container alone; with a directory that can be listed it returns 0
  exactly when some entry of the asset was read and decoded, and otherwise \<open>-1\<close> with an
  empty container.
\<close>

theorem read_asset_metrics_result:
  "read_asset_metrics now behind None asset old = (- 1, old) \<and>
   (fst (read_asset_metrics now behind (Some d) asset old) = 0 \<longleftrightarrow>
      (\<exists>n \<in> fst ` set d.
         CHR '':'' \<in> set n \<and> 7 \<le> length n \<and> drop (length n - 7) n = ''.metric'' \<and>
         asset_of n = asset \<and>
         (\<exists>r. read_value now (shm_dir @ ''/'' @ n @ [NUL]) True (behind n) (Some d) = Inr r))) \<and>
   (fst (read_asset_metrics now behind (Some d) asset old) \<noteq> 0 \<longrightarrow>
      read_asset_metrics now behind (Some d) asset old = (- 1, Map.empty))"
proof -
  have tk: "take (length (asset_of n)) n = asset_of n" for n
    unfolding asset_of_def by (induction n) auto
  have me: "metric_entry asset n \<longleftrightarrow>
      CHR '':'' \<in> set n \<and> 7 \<le> length n \<and> drop (length n - 7) n = ''.metric'' \<and> asset_of n = asset" for n
    by (auto simp: metric_entry_def tk SUFFIX_LEN_def METRIC_SUFFIX_def)
  have a: "read_asset_metrics now behind None asset old = (- 1, old)"
    by (simp add: read_asset_metrics_def)
  have b: "fst (read_asset_metrics now behind (Some d) asset old) = 0 \<longleftrightarrow>
      (\<exists>n \<in> fst ` set d. metric_entry asset n \<and>
         (\<exists>r. read_value now (entry_path n) True (behind n) (Some d) = Inr r))"
    by (simp add: read_asset_metrics_def read_loop_fst)
  have c: "fst (read_asset_metrics now behind (Some d) asset old) \<noteq> 0 \<Longrightarrow>
      read_asset_metrics now behind (Some d) asset old = (- 1, Map.empty)"
    using read_loop_fst_cases [where now = now and behind = behind and d = d and asset = asset and names = "map fst d"
        and err = "- 1" and m = Map.empty]
    by (auto simp: read_asset_metrics_def)
  show ?thesis using a b c unfolding me entry_path_def by blast
qed

theorem read_asset_metrics_result_witness:
  "fst (read_asset_metrics 5 zeroed (Some [(''assetA:temp.metric'',
       \<lparr>st_dev = 0, st_ino = 1, st_mtime = 0, bytes = record_buf ''23.5'' ''C'' 0\<rparr>)])
       ''assetA'' Map.empty) = 0 \<and>
   read_asset_metrics 5 zeroed (Some [(''assetA:temp.metric'',
       \<lparr>st_dev = 0, st_ino = 1, st_mtime = 0, bytes = record_buf ''23.5'' ''C'' 1\<rparr>)])
       ''assetA'' Map.empty = (- 1, Map.empty) \<and>
   read_asset_metrics 5 zeroed None ''assetA'' Map.empty = (- 1, Map.empty)"
proof -
  let ?D = "[(''assetA:temp.metric'',
       \<lparr>st_dev = 0, st_ino = 1, st_mtime = 0, bytes = record_buf ''23.5'' ''C'' 0\<rparr>)]"
  let ?E = "[(''assetA:temp.metric'',
       \<lparr>st_dev = 0, st_ino = 1, st_mtime = 0, bytes = record_buf ''23.5'' ''C'' 1\<rparr>)]"
  have r: "read_value 5 (shm_dir @ ''/'' @ ''assetA:temp.metric'' @ [NUL]) True (zeroed ''assetA:temp.metric'') (Some ?D)
             = Inr (''23.5'', Some ''C'')"
    by (simp add: read_eval)
  have "\<exists>n \<in> fst ` set ?D.
         CHR '':'' \<in> set n \<and> 7 \<le> length n \<and> drop (length n - 7) n = ''.metric'' \<and>
         asset_of n = ''assetA'' \<and>
         (\<exists>r. read_value 5 (shm_dir @ ''/'' @ n @ [NUL]) True (zeroed n) (Some ?D) = Inr r)"
    using r by (simp add: asset_of_def)
  then have a: "fst (read_asset_metrics 5 zeroed (Some ?D) ''assetA'' Map.empty) = 0"
    using read_asset_metrics_result [where now = 5 and behind = zeroed and asset = "''assetA''"
        and old = Map.empty and d = ?D] by blast
  have "fst (read_asset_metrics 5 zeroed (Some ?E) ''assetA'' Map.empty) \<noteq> 0"
    by (simp add: scan_eval read_eval)
  then have b: "read_asset_metrics 5 zeroed (Some ?E) ''assetA'' Map.empty = (- 1, Map.empty)"
    using read_asset_metrics_result [where now = 5 and behind = zeroed and asset = "''assetA''"
        and old = Map.empty and d = ?E] by blast
  have c: "read_asset_metrics 5 zeroed None ''assetA'' Map.empty = (- 1, Map.empty)"
    using read_asset_metrics_result [where now = 5 and behind = zeroed and asset = "''assetA''"
        and old = Map.empty and d = ?D] by blast
  from a b c show ?thesis by blast
qed

text \<open>
  C5 as the specification words it fails: a directory that can be listed and holds no
  entry, or only a stale entry of the asset, makes the call return \<open>-1\<close>.
\<close>

theorem read_asset_metrics_empty_counterexample:
  "fst (read_asset_metrics 0 zeroed (Some []) ''assetA'' Map.empty) \<noteq> 0 \<and>
   fst (read_asset_metrics 5 zeroed (Some [(''assetA:temp.metric'',
       \<lparr>st_dev = 0, st_ino = 1, st_mtime = 0, bytes = record_buf ''23.5'' ''C'' 1\<rparr>)])
       ''assetA'' Map.empty) \<noteq> 0"
  by (simp add: scan_eval read_eval)

text \<open>
  C10. Once the directory is open, \<open>find_assets\<close> and \<open>read_asset_metrics\<close> clear the
  container of the caller: the result is the one an empty container gives. The assets
  returned are those of the entries of this scan, each once, and every metric returned
  is the record of an entry \<open>asset:metric.metric\<close> of this scan.
\<close>

theorem scans_clear_output:
  "find_assets (Some d) old_assets = find_assets (Some d) [] \<and>
   fst (find_assets (Some d) old_assets) = 0 \<and>
   distinct (snd (find_assets (Some d) old_assets)) \<and>
   set (snd (find_assets (Some d) old_assets)) =
     asset_of ` {n \<in> fst ` set d. CHR '':'' \<in> set n} \<and>
   read_asset_metrics now behind (Some d) asset old_metrics =
     read_asset_metrics now behind (Some d) asset Map.empty \<and>
   (\<forall>k v. snd (read_asset_metrics now behind (Some d) asset old_metrics) k = Some v \<longrightarrow>
      asset @ '':'' @ k @ ''.metric'' \<in> fst ` set d \<and>
      read_value now (shm_dir @ ''/'' @ asset @ '':'' @ k @ ''.metric'' @ [NUL]) True
        (behind (asset @ '':'' @ k @ ''.metric'')) (Some d)
        = Inr (metric_value v, Some (metric_unit v)))"
proof -
  have fa: "distinct (snd (find_assets (Some d) old_assets)) \<and>
      set (snd (find_assets (Some d) old_assets)) = asset_of ` {n \<in> fst ` set d. CHR '':'' \<in> set n}"
    using find_assets_loop_inv [of "{}" "[]" "map fst d"] by (simp add: find_assets_def)
  have keys: "asset @ '':'' @ k @ ''.metric'' \<in> fst ` set d \<and>
      read_value now (shm_dir @ ''/'' @ asset @ '':'' @ k @ ''.metric'' @ [NUL]) True
        (behind (asset @ '':'' @ k @ ''.metric'')) (Some d)
        = Inr (metric_value v, Some (metric_unit v))"
    if "snd (read_asset_metrics now behind (Some d) asset old_metrics) k = Some v" for k v
  proof -
    from that have "snd (read_asset_metrics_loop now behind d asset (map fst d) (- 1, Map.empty)) k = Some v"
      by (simp add: read_asset_metrics_def)
    from read_loop_keys [OF this] obtain n where n: "n \<in> fst ` set d" "metric_entry asset n"
      "k = metric_key n"
      "read_value now (entry_path n) True (behind n) (Some d) = Inr (metric_value v, Some (metric_unit v))"
      by auto
    from metric_entry_name [OF n(2)] n(3) have "n = asset @ '':'' @ k @ ''.metric''" by simp
    with n(1) n(4) show ?thesis by (simp add: entry_path_def)
  qed
  show ?thesis
    using fa keys by (simp add: find_assets_def read_asset_metrics_def)
qed

theorem scans_clear_output_witness:
  "find_assets (Some [(''assetA:temp.metric'',
       \<lparr>st_dev = 0, st_ino = 1, st_mtime = 0, bytes = record_buf ''23.5'' ''C'' 0\<rparr>)])
     [''gone''] = (0, [''assetA'']) \<and>
   snd (read_asset_metrics 5 zeroed (Some [(''assetA:temp.metric'',
       \<lparr>st_dev = 0, st_ino = 1, st_mtime = 0, bytes = record_buf ''23.5'' ''C'' 0\<rparr>)])
     ''assetA'' [''gone'' \<mapsto> \<lparr>metric_value = ''1'', metric_unit = ''V''\<rparr>]) ''gone'' = None \<and>
   snd (read_asset_metrics 5 zeroed (Some [(''assetA:temp.metric'',
       \<lparr>st_dev = 0, st_ino = 1, st_mtime = 0, bytes = record_buf ''23.5'' ''C'' 0\<rparr>)])
     ''assetA'' [''gone'' \<mapsto> \<lparr>metric_value = ''1'', metric_unit = ''V''\<rparr>]) ''temp''
     = Some \<lparr>metric_value = ''23.5'', metric_unit = ''C''\<rparr>"
  using scans_clear_output [where d = "[(''assetA:temp.metric'',
       \<lparr>st_dev = 0, st_ino = 1, st_mtime = 0, bytes = record_buf ''23.5'' ''C'' 0\<rparr>)]"
       and old_assets = "[''gone'']" and now = 5 and behind = zeroed and asset = "''assetA''"
       and old_metrics = "[''gone'' \<mapsto> \<lparr>metric_value = ''1'', metric_unit = ''V''\<rparr>]"]
  by (simp add: scan_eval read_eval)

section \<open>Properties of the garbage collector\<close>

lemma metric_name_not_delete: "metric_name n \<Longrightarrow> n \<noteq> DELETE_NAME"
  by (auto simp: metric_name_def DELETE_NAME_def SUFFIX_LEN_def METRIC_SUFFIX_def)

lemma cleanup_entry_skip:
  "\<not> eligible now d n \<Longrightarrow> fst (cleanup_entry now env n (d, err)) = d"
  by (auto simp: cleanup_entry_def eligible_def metric_name_def read_buf_def Let_def
        PAYLOAD_START_def TTL_LEN_def split: option.splits sum.splits)

lemma cleanup_entry_not_metric:
  "\<not> metric_name n \<Longrightarrow> cleanup_entry now env n st = st"
  by (cases st) (auto simp: cleanup_entry_def metric_name_def Let_def)

lemma lookup_append_new:
  "name \<notin> fst ` set d \<Longrightarrow> lookup (d @ [(name, f)]) name = Some f"
  by (simp add: lookup_def map_add_def map_of_eq_None_iff [THEN iffD2])

lemma unlink_entry_names: "fst ` set (unlink_entry n d) = fst ` set d - {n}"
  by (auto simp: unlink_entry_def)

lemma cleanup_entry_quiet_eligible:
  assumes "eligible now d n"
  shows "fst (cleanup_entry now (quiet n) n (d, err)) =
           filter (\<lambda>e. fst e \<noteq> n \<and> fst e \<noteq> DELETE_NAME) d"
proof -
  from assms obtain st1 ttl where mn: "metric_name n" and l: "lookup d n = Some st1"
    and sz: "\<not> length (bytes st1) < PAYLOAD_START"
    and p: "parse_ttl (take (TTL_LEN + 1) (bytes st1)) = Inr ttl"
    and t: "ttl \<noteq> 0" "\<not> c_div (now - st_mtime st1) 2 \<le> ttl"
    by (auto simp: eligible_def split: option.splits sum.splits)
  have nd: "n \<noteq> DELETE_NAME" using mn by (rule metric_name_not_delete)
  let ?d0 = "unlink_entry n (unlink_entry DELETE_NAME d)"
  let ?d2 = "?d0 @ [(DELETE_NAME, st1)]"
  have ren: "renameat n DELETE_NAME d = Inr ?d2" using l nd by (simp add: renameat_def)
  have nin: "DELETE_NAME \<notin> fst ` set ?d0" by (simp add: unlink_entry_names)
  have l2: "lookup ?d2 DELETE_NAME = Some st1" using nin by (rule lookup_append_new)
  have un: "unlinkat DELETE_NAME ?d2 = Inr (unlink_entry DELETE_NAME ?d2)"
    by (simp add: unlinkat_def)
  have rb: "read_buf st1 (TTL_LEN + 1) = Inr (take (TTL_LEN + 1) (bytes st1))"
    using sz by (simp add: read_buf_def PAYLOAD_START_def TTL_LEN_def)
  have res: "unlink_entry DELETE_NAME ?d2 = filter (\<lambda>e. fst e \<noteq> n \<and> fst e \<noteq> DELETE_NAME) d"
    by (auto simp: unlink_entry_def intro: filter_cong)
  have mn': "\<not> length n < SUFFIX_LEN" "drop (length n - SUFFIX_LEN) n = METRIC_SUFFIX"
    using mn by (simp_all add: metric_name_def)
  show ?thesis
    using mn' l sz rb p t ren l2 un res unfolding cleanup_entry_def
    by (simp add: Let_def quiet_def TTL_LEN_def)
qed

lemma lookup_filter:
  "lookup (filter (\<lambda>e. P (fst e)) d) m = (if P m then lookup d m else None)"
  unfolding lookup_def by (induction d) auto

lemma eligible_after_removal:
  "eligible now (filter (\<lambda>e. fst e \<noteq> n \<and> fst e \<noteq> DELETE_NAME) d) m \<longleftrightarrow>
     eligible now d m \<and> m \<noteq> n"
  using lookup_filter [of "\<lambda>x. x \<noteq> n \<and> x \<noteq> DELETE_NAME" d m] metric_name_not_delete [of m]
  by (auto simp: eligible_def)

lemma cleanup_loop_quiet:
  "e \<in> set (fst (cleanup_loop now quiet names (d, err))) \<longleftrightarrow>
     e \<in> set d \<and> \<not> (fst e \<in> set names \<and> eligible now d (fst e)) \<and>
     \<not> (fst e = DELETE_NAME \<and> (\<exists>n \<in> set names. eligible now d n))"
proof (induction names arbitrary: d err)
  case Nil
  show ?case by simp
next
  case (Cons n rest)
  obtain d1 err1 where st: "cleanup_entry now (quiet n) n (d, err) = (d1, err1)" by fastforce
  have ih: "e \<in> set (fst (cleanup_loop now quiet (n # rest) (d, err))) \<longleftrightarrow>
     e \<in> set d1 \<and> \<not> (fst e \<in> set rest \<and> eligible now d1 (fst e)) \<and>
     \<not> (fst e = DELETE_NAME \<and> (\<exists>m \<in> set rest. eligible now d1 m))"
    using Cons.IH [of d1 err1] st by simp
  show ?case
  proof (cases "eligible now d n")
    case False
    then have "d1 = d" using cleanup_entry_skip [of now d n "quiet n" err] st by simp
    with ih False show ?thesis by auto
  next
    case True
    then have d1: "d1 = filter (\<lambda>e. fst e \<noteq> n \<and> fst e \<noteq> DELETE_NAME) d"
      using cleanup_entry_quiet_eligible [of now d n err] st by simp
    show ?thesis unfolding ih unfolding d1 eligible_after_removal using True by auto
  qed
qed


lemma c_div_2_gt: "0 \<le> T \<Longrightarrow> c_div x 2 > T \<longleftrightarrow> x \<ge> 2 * T + 2"
proof (cases "0 \<le> x")
  case True
  assume "0 \<le> T"
  have "c_div x 2 = x div 2" using True by (cases "x = 0") (simp_all add: c_div_def)
  then show ?thesis by simp linarith
next
  case False
  assume T: "0 \<le> T"
  have "c_div x 2 = - (\<bar>x\<bar> div 2)" using False by (simp add: c_div_def)
  moreover have "0 \<le> \<bar>x\<bar> div 2" by simp
  ultimately show ?thesis using False T by linarith
qed

lemmas cleanup_eval = fty_shm_cleanup_def cleanup_entry_def cleanup_restore_def renameat_def
  rename_noreplace_def unlinkat_def unlink_entry_def store_entry_def quiet_def c_div_def DELETE_NAME_def

text \<open>
  C1, as the code has it. In a run without other processes, an entry whose name ends in
  the suffix, whose file holds the 22 bytes of a header and whose TTL parses to \<open>T\<close> is
  kept when \<open>T\<close> is 0. For \<open>T > 0\<close> it is removed exactly when
  \<open>(now - mtime) / 2 > T\<close> in the integer division of C, that is when it has gone
  unrefreshed for at least \<open>2 * T + 2\<close> seconds; up to \<open>2 * T + 1\<close> seconds it is kept.
\<close>

theorem cleanup_threshold:
  assumes "distinct (map fst d)" and "(name, f) \<in> set d"
    and "7 \<le> length name" and "drop (length name - 7) name = ''.metric''"
    and "22 \<le> length (bytes f)" and "parse_ttl (take 11 (bytes f)) = Inr T"
  shows "\<exists>err d'. fty_shm_cleanup now quiet (Some d) = (err, Some d') \<and>
           (T = 0 \<longrightarrow> (name, f) \<in> set d') \<and>
           (0 < T \<longrightarrow>
              (name \<notin> fst ` set d' \<longleftrightarrow> c_div (now - st_mtime f) 2 > T) \<and>
              (name \<notin> fst ` set d' \<longleftrightarrow> now - st_mtime f \<ge> 2 * T + 2) \<and>
              (now - st_mtime f \<le> 2 * T + 1 \<longrightarrow> (name, f) \<in> set d'))"
proof -
  obtain d' err where loop: "cleanup_loop now quiet (map fst d) (d, 0) = (d', err)" by fastforce
  then have res: "fty_shm_cleanup now quiet (Some d) = (err, Some d')"
    by (simp add: fty_shm_cleanup_def)
  have mn: "metric_name name"
    using assms(3,4) by (simp add: metric_name_def SUFFIX_LEN_def METRIC_SUFFIX_def)
  have nd: "name \<noteq> DELETE_NAME" using mn by (rule metric_name_not_delete)
  have l: "lookup d name = Some f"
    using assms(1,2) by (simp add: lookup_def)
  have el: "eligible now d name \<longleftrightarrow> T \<noteq> 0 \<and> c_div (now - st_mtime f) 2 > T"
    using mn l assms(5,6) by (simp add: eligible_def PAYLOAD_START_def TTL_LEN_def not_le)
  have mem: "e \<in> set d' \<longleftrightarrow> e \<in> set d \<and> \<not> (fst e \<in> fst ` set d \<and> eligible now d (fst e)) \<and>
     \<not> (fst e = DELETE_NAME \<and> (\<exists>n \<in> fst ` set d. eligible now d n))" for e
    using cleanup_loop_quiet [of e now "map fst d" d 0] loop by simp
  have nin: "name \<in> fst ` set d" using assms(2) by force
  have keep: "(name, f) \<in> set d' \<longleftrightarrow> \<not> eligible now d name"
    using mem [of "(name, f)"] assms(2) nin nd by simp
  have gone: "name \<notin> fst ` set d' \<longleftrightarrow> eligible now d name"
  proof
    assume "name \<notin> fst ` set d'"
    then have "(name, f) \<notin> set d'" by force
    then show "eligible now d name" using keep by simp
  next
    assume e: "eligible now d name"
    show "name \<notin> fst ` set d'"
    proof
      assume "name \<in> fst ` set d'"
      then obtain x where "x \<in> set d'" "fst x = name" by auto
      then show False using mem [of x] e nin by simp
    qed
  qed
  have thr: "0 < T \<Longrightarrow> (c_div (now - st_mtime f) 2 > T \<longleftrightarrow> now - st_mtime f \<ge> 2 * T + 2)"
    using c_div_2_gt [of T "now - st_mtime f"] by simp
  have a: "T = 0 \<longrightarrow> (name, f) \<in> set d'" using keep el by simp
  have b: "0 < T \<longrightarrow> (name \<notin> fst ` set d' \<longleftrightarrow> c_div (now - st_mtime f) 2 > T)"
    using gone el by simp
  have c: "0 < T \<longrightarrow> (name \<notin> fst ` set d' \<longleftrightarrow> now - st_mtime f \<ge> 2 * T + 2)"
    using b thr by blast
  have d: "0 < T \<longrightarrow> now - st_mtime f \<le> 2 * T + 1 \<longrightarrow> (name, f) \<in> set d'"
  proof (intro impI)
    assume "0 < T" "now - st_mtime f \<le> 2 * T + 1"
    then have "\<not> c_div (now - st_mtime f) 2 > T" using thr by simp
    then show "(name, f) \<in> set d'" using keep el by simp
  qed
  from res a b c d show ?thesis by blast
qed

theorem cleanup_threshold_witness:
  "fty_shm_cleanup 4 quiet (Some [(''assetA:temp.metric'',
       \<lparr>st_dev = 0, st_ino = 1, st_mtime = 0, bytes = record_buf ''23.5'' ''C'' 1\<rparr>)])
     = (0, Some []) \<and>
   (4 :: int) - 0 \<ge> 2 * 1 + 2 \<and>
   fty_shm_cleanup 3 quiet (Some [(''assetA:temp.metric'',
       \<lparr>st_dev = 0, st_ino = 1, st_mtime = 0, bytes = record_buf ''23.5'' ''C'' 1\<rparr>)])
     = (0, Some [(''assetA:temp.metric'',
       \<lparr>st_dev = 0, st_ino = 1, st_mtime = 0, bytes = record_buf ''23.5'' ''C'' 1\<rparr>)]) \<and>
   fty_shm_cleanup 1000000 quiet (Some [(''assetA:temp.metric'',
       \<lparr>st_dev = 0, st_ino = 1, st_mtime = 0, bytes = record_buf ''23.5'' ''C'' 0\<rparr>)])
     = (0, Some [(''assetA:temp.metric'',
       \<lparr>st_dev = 0, st_ino = 1, st_mtime = 0, bytes = record_buf ''23.5'' ''C'' 0\<rparr>)])"
proof -
  let ?f = "\<lparr>st_dev = 0, st_ino = 1, st_mtime = 0, bytes = record_buf ''23.5'' ''C'' 1\<rparr>"
  let ?g = "\<lparr>st_dev = 0, st_ino = 1, st_mtime = 0, bytes = record_buf ''23.5'' ''C'' 0\<rparr>"
  let ?n = "''assetA:temp.metric''"
  have h: "distinct (map fst [(?n, ?f)])" "(?n, ?f) \<in> set [(?n, ?f)]"
    "7 \<le> length ?n" "drop (length ?n - 7) ?n = ''.metric''" "22 \<le> length (bytes ?f)"
    by (simp_all add: length_record_buf)
  have p: "parse_ttl (take 11 (bytes ?f)) = Inr 1"
    by (simp add: read_eval)
  from cleanup_threshold [OF h p, of 4]
  obtain err d' where r: "fty_shm_cleanup 4 quiet (Some [(?n, ?f)]) = (err, Some d')"
    and gone: "?n \<notin> fst ` set d'"
    by auto
  have a: "fty_shm_cleanup 4 quiet (Some [(?n, ?f)]) = (0, Some [])"
    by (simp add: cleanup_eval read_eval)
  have b: "fty_shm_cleanup 3 quiet (Some [(?n, ?f)]) = (0, Some [(?n, ?f)])"
    by (simp add: cleanup_eval read_eval)
  have c: "fty_shm_cleanup 1000000 quiet (Some [(?n, ?g)]) = (0, Some [(?n, ?g)])"
    by (simp add: cleanup_eval read_eval)
  from a b c r gone show ?thesis by simp
qed

text \<open>
  C1 as the specification words it fails at an odd age: a record with TTL 1 that has gone
  unrefreshed for 3 seconds, more than twice its TTL, is kept, since \<open>3 / 2 = 1\<close>.
\<close>

theorem cleanup_threshold_odd_counterexample:
  "parse_ttl (take 11 (record_buf ''23.5'' ''C'' 1)) = Inr 1 \<and>
   (3 :: int) - 0 > 2 * 1 \<and>
   fty_shm_cleanup 3 quiet (Some [(''assetA:temp.metric'',
       \<lparr>st_dev = 0, st_ino = 1, st_mtime = 0, bytes = record_buf ''23.5'' ''C'' 1\<rparr>)])
     = (0, Some [(''assetA:temp.metric'',
       \<lparr>st_dev = 0, st_ino = 1, st_mtime = 0, bytes = record_buf ''23.5'' ''C'' 1\<rparr>)])"
  by (simp add: cleanup_eval read_eval)

lemma cleanup_restore_err: "snd st = - 1 \<Longrightarrow> snd (cleanup_restore n st) = - 1"
  by (auto simp: cleanup_restore_def split: sum.splits)

lemma cleanup_entry_err: "snd st = - 1 \<Longrightarrow> snd (cleanup_entry now env n st) = - 1"
  by (auto simp: cleanup_entry_def cleanup_restore_err Let_def split: sum.splits option.splits)

lemma cleanup_loop_err: "snd st = - 1 \<Longrightarrow> snd (cleanup_loop now env names st) = - 1"
  by (induction names arbitrary: st) (simp_all add: cleanup_entry_err)

text \<open>
  C6, as the code has it. When the entry found under the temporary name is not the file
  that was examined and the non-replacing rename back fails because the name is taken
  again, the temporary entry is unlinked and \<open>err\<close> is set to \<open>-1\<close>; no later entry
  resets it, so \<open>fty_shm_cleanup\<close> returns \<open>-1\<close>.
\<close>

theorem cleanup_lost_race_is_error:
  assumes "eligible now d d_name" and "lookup d d_name = Some st1"
    and "renameat d_name DELETE_NAME (after_scan env d) = Inr d2"
    and "lookup (after_rename env d2) DELETE_NAME = Some st2"
    and "st_dev st1 \<noteq> st_dev st2 \<or> st_ino st1 \<noteq> st_ino st2"
    and "rename_noreplace DELETE_NAME d_name (after_stat env (after_rename env d2)) = Inl EEXIST"
  shows "cleanup_entry now env d_name (d, err) =
           (unlink_entry DELETE_NAME (after_stat env (after_rename env d2)), - 1) \<and>
         DELETE_NAME \<notin> fst ` set (fst (cleanup_entry now env d_name (d, err))) \<and>
         snd (cleanup_loop now envs rest (cleanup_entry now env d_name (d, err))) = - 1"
proof -
  let ?d4 = "after_stat env (after_rename env d2)"
  from assms(1,2) obtain ttl where mn: "metric_name d_name"
    and sz: "\<not> length (bytes st1) < PAYLOAD_START"
    and p: "parse_ttl (take (TTL_LEN + 1) (bytes st1)) = Inr ttl"
    and t: "ttl \<noteq> 0" "\<not> c_div (now - st_mtime st1) 2 \<le> ttl"
    by (auto simp: eligible_def split: option.splits sum.splits)
  have rb: "read_buf st1 (TTL_LEN + 1) = Inr (take (TTL_LEN + 1) (bytes st1))"
    using sz by (simp add: read_buf_def PAYLOAD_START_def TTL_LEN_def)
  have mn': "\<not> length d_name < SUFFIX_LEN" "drop (length d_name - SUFFIX_LEN) d_name = METRIC_SUFFIX"
    using mn by (simp_all add: metric_name_def)
  from assms(6) obtain x where "map_of ?d4 DELETE_NAME = Some x"
    by (auto simp: rename_noreplace_def lookup_def split: option.splits if_splits)
  then have "(DELETE_NAME, x) \<in> set ?d4" by (rule map_of_SomeD)
  then have "DELETE_NAME \<in> fst ` set ?d4" by force
  then have un: "unlinkat DELETE_NAME ?d4 = Inr (unlink_entry DELETE_NAME ?d4)"
    by (simp add: unlinkat_def)
  have r: "cleanup_restore d_name (?d4, err) = (unlink_entry DELETE_NAME ?d4, - 1)"
    using assms(6) un by (simp add: cleanup_restore_def)
  have e: "cleanup_entry now env d_name (d, err) = (unlink_entry DELETE_NAME ?d4, - 1)"
    using mn' assms(2) sz rb p t assms(3,4,5) r unfolding cleanup_entry_def
    by (auto simp add: Let_def TTL_LEN_def)
  show ?thesis
    unfolding e by (simp add: unlink_entry_names cleanup_loop_err)
qed

theorem cleanup_lost_race_is_error_witness:
  "eligible 4 [(''assetA:temp.metric'',
       \<lparr>st_dev = 0, st_ino = 1, st_mtime = 0, bytes = record_buf ''23.5'' ''C'' 1\<rparr>)]
     ''assetA:temp.metric'' \<and>
   cleanup_entry 4 (racing_writer ''assetA:temp.metric'') ''assetA:temp.metric''
     ([(''assetA:temp.metric'',
       \<lparr>st_dev = 0, st_ino = 1, st_mtime = 0, bytes = record_buf ''23.5'' ''C'' 1\<rparr>)], 0)
     = ([(''assetA:temp.metric'',
       \<lparr>st_dev = 0, st_ino = 8, st_mtime = 4, bytes = record_buf ''24.5'' ''C'' 1\<rparr>)], - 1)"
proof -
  let ?n = "''assetA:temp.metric''"
  let ?f1 = "\<lparr>st_dev = 0, st_ino = 1, st_mtime = 0, bytes = record_buf ''23.5'' ''C'' 1\<rparr>"
  let ?f7 = "\<lparr>st_dev = 0, st_ino = 7, st_mtime = 4, bytes = record_buf ''24.0'' ''C'' 1\<rparr>"
  let ?f8 = "\<lparr>st_dev = 0, st_ino = 8, st_mtime = 4, bytes = record_buf ''24.5'' ''C'' 1\<rparr>"
  let ?env = "racing_writer ?n"
  have el: "eligible 4 [(?n, ?f1)] ?n"
    by (simp add: eligible_def metric_name_def lookup_def c_div_def read_eval)
  have l: "lookup [(?n, ?f1)] ?n = Some ?f1" by (simp add: lookup_def)
  have ren: "renameat ?n DELETE_NAME (after_scan ?env [(?n, ?f1)]) = Inr [(DELETE_NAME, ?f7)]"
    by (simp add: racing_writer_def cleanup_eval lookup_def)
  have l2: "lookup (after_rename ?env [(DELETE_NAME, ?f7)]) DELETE_NAME = Some ?f7"
    by (simp add: racing_writer_def lookup_def)
  have ne: "st_dev ?f1 \<noteq> st_dev ?f7 \<or> st_ino ?f1 \<noteq> st_ino ?f7" by simp
  have nr: "rename_noreplace DELETE_NAME ?n (after_stat ?env (after_rename ?env [(DELETE_NAME, ?f7)]))
              = Inl EEXIST"
    by (simp add: racing_writer_def cleanup_eval lookup_def)
  from cleanup_lost_race_is_error [OF el l ren l2 ne nr, of 0 quiet "[]"]
  have "cleanup_entry 4 ?env ?n ([(?n, ?f1)], 0) =
          (unlink_entry DELETE_NAME (after_stat ?env (after_rename ?env [(DELETE_NAME, ?f7)])), - 1)"
    by blast
  then have "cleanup_entry 4 ?env ?n ([(?n, ?f1)], 0) = ([(?n, ?f8)], - 1)"
    by (simp add: racing_writer_def cleanup_eval)
  with el show ?thesis by blast
qed

text \<open>
  C6 as the specification words it fails: in the run with \<open>racing_writer\<close> the lost race
  is the only irregularity, and \<open>fty_shm_cleanup\<close> returns \<open>-1\<close>.
\<close>

theorem cleanup_lost_race_counterexample:
  "fty_shm_cleanup 4 racing_writer (Some [(''assetA:temp.metric'',
       \<lparr>st_dev = 0, st_ino = 1, st_mtime = 0, bytes = record_buf ''23.5'' ''C'' 1\<rparr>)])
     = (- 1, Some [(''assetA:temp.metric'',
       \<lparr>st_dev = 0, st_ino = 8, st_mtime = 4, bytes = record_buf ''24.5'' ''C'' 1\<rparr>)])"
  by (simp add: racing_writer_def cleanup_eval read_eval)

section \<open>Entries the scanners pass over\<close>

lemma find_assets_loop_skip:
  "find_assets_loop (filter (\<lambda>n. CHR '':'' \<in> set n) names) st = find_assets_loop names st"
proof (induction names arbitrary: st)
  case Nil
  show ?case by simp
next
  case (Cons n rest)
  obtain seen assets where st: "st = (seen, assets)" by (cases st)
  show ?case unfolding st using Cons.IH by simp
qed

lemma delete_asset_loop_skip:
  "delete_asset_loop asset (filter (\<lambda>n. CHR '':'' \<in> set n) names) st = delete_asset_loop asset names st"
proof (induction names arbitrary: st)
  case Nil
  show ?case by simp
next
  case (Cons n rest)
  obtain d err where st: "st = (d, err)" by (cases st)
  show ?case unfolding st using Cons.IH by (simp split: sum.splits)
qed

lemma read_asset_metrics_loop_skip:
  "read_asset_metrics_loop now behind d asset (filter (\<lambda>n. CHR '':'' \<in> set n \<and> metric_name n) names) st
     = read_asset_metrics_loop now behind d asset names st"
proof (induction names arbitrary: st)
  case Nil
  show ?case by simp
next
  case (Cons n rest)
  obtain err m where st: "st = (err, m)" by (cases st)
  have me: "metric_entry asset n \<Longrightarrow> CHR '':'' \<in> set n \<and> metric_name n"
    by (simp add: metric_entry_def metric_name_def)
  show ?case
  proof (cases "CHR '':'' \<in> set n \<and> metric_name n")
    case True
    then show ?thesis unfolding st using Cons.IH
      by (simp add: read_asset_metrics_loop_Cons del: read_asset_metrics_loop.simps split: sum.splits)
  next
    case False
    then have "\<not> metric_entry asset n" using me by blast
    with False show ?thesis unfolding st using Cons.IH
      by (simp add: read_asset_metrics_loop_Cons del: read_asset_metrics_loop.simps)
  qed
qed

lemma cleanup_loop_skip:
  "cleanup_loop now env (filter metric_name names) st = cleanup_loop now env names st"
  by (induction names arbitrary: st) (simp_all add: cleanup_entry_not_metric)

lemma delete_asset_loop_keeps:
  assumes "e \<in> set d" "CHR '':'' \<notin> set (fst e)"
  shows "e \<in> set (fst (delete_asset_loop asset names (d, err)))"
  using assms(1)
proof (induction names arbitrary: d err)
  case Nil
  then show ?case by simp
next
  case (Cons n rest)
  show ?case
  proof (cases "CHR '':'' \<in> set n \<and> asset_of n = c_str asset \<and> n \<in> fst ` set d")
    case True
    then have "fst e \<noteq> n" using assms(2) by auto
    then have "e \<in> set (unlink_entry n d)" using Cons.prems by (simp add: unlink_entry_def)
    from Cons.IH [OF this] True show ?thesis by (simp add: unlinkat_def)
  next
    case False
    with Cons.IH [OF Cons.prems] show ?thesis by (auto simp: unlinkat_def)
  qed
qed

lemmas delete_eval = fty_shm_delete_asset_def unlinkat_def unlink_entry_def asset_of_def c_str_def NUL_def

text \<open>
  C4, as the code has it. Each scanning function has its own test. \<open>find_assets\<close> and
  \<open>fty_shm_delete_asset\<close> pass over the names without a colon and do not look at the
  suffix; \<open>fty_shm_cleanup\<close> passes over the names that do not end in \<open>.metric\<close> and
  does not look for a colon; \<open>read_asset_metrics\<close> passes over both. Each function
  behaves as if the names it passes over were not listed. An entry without a colon
  survives \<open>fty_shm_delete_asset\<close>; an entry without the suffix survives a cleanup run
  without other processes, unless it is called \<open>.delete\<close>, the temporary name of the
  collector.
\<close>

theorem scanners_skip_by_their_own_test:
  "find_assets (Some d) old = find_assets (Some (filter (\<lambda>e. CHR '':'' \<in> set (fst e)) d)) old \<and>
   read_asset_metrics now behind (Some d) asset old_metrics =
     read_asset_metrics_loop now behind d asset
       (filter (\<lambda>n. CHR '':'' \<in> set n \<and> 7 \<le> length n \<and> drop (length n - 7) n = ''.metric'')
          (map fst d)) (- 1, Map.empty) \<and>
   fty_shm_delete_asset asset (Some d) =
     (let (d', err) = delete_asset_loop asset (filter (\<lambda>n. CHR '':'' \<in> set n) (map fst d)) (d, 0)
      in (err, Some d')) \<and>
   fty_shm_cleanup now env (Some d) =
     (let (d', err) = cleanup_loop now env
        (filter (\<lambda>n. 7 \<le> length n \<and> drop (length n - 7) n = ''.metric'') (map fst d)) (d, 0)
      in (err, Some d')) \<and>
   (\<forall>e \<in> set d. CHR '':'' \<notin> set (fst e) \<longrightarrow>
      (\<exists>err d'. fty_shm_delete_asset asset (Some d) = (err, Some d') \<and> e \<in> set d')) \<and>
   (\<forall>e \<in> set d.
      \<not> (7 \<le> length (fst e) \<and> drop (length (fst e) - 7) (fst e) = ''.metric'') \<and>
      fst e \<noteq> ''.delete'' \<longrightarrow>
      (\<exists>err d'. fty_shm_cleanup now quiet (Some d) = (err, Some d') \<and> e \<in> set d'))"
proof -
  have mn: "metric_name = (\<lambda>n. 7 \<le> length n \<and> drop (length n - 7) n = ''.metric'')"
    by (auto simp: metric_name_def SUFFIX_LEN_def METRIC_SUFFIX_def fun_eq_iff)
  have mf: "map fst (filter (\<lambda>e. P (fst e)) d) = filter P (map fst d)" for P
    by (induction d) auto
  have a: "find_assets (Some d) old = find_assets (Some (filter (\<lambda>e. CHR '':'' \<in> set (fst e)) d)) old"
    using mf [of "\<lambda>n. CHR '':'' \<in> set n"] by (simp add: find_assets_def find_assets_loop_skip)
  have b: "read_asset_metrics now behind (Some d) asset old_metrics =
     read_asset_metrics_loop now behind d asset
       (filter (\<lambda>n. CHR '':'' \<in> set n \<and> metric_name n) (map fst d)) (- 1, Map.empty)"
    by (simp only: read_asset_metrics_def read_asset_metrics_loop_skip option.case)
  have c: "fty_shm_delete_asset asset (Some d) =
     (let (d', err) = delete_asset_loop asset (filter (\<lambda>n. CHR '':'' \<in> set n) (map fst d)) (d, 0)
      in (err, Some d'))"
    by (simp only: fty_shm_delete_asset_def delete_asset_loop_skip option.case)
  have dd: "fty_shm_cleanup now env (Some d) =
     (let (d', err) = cleanup_loop now env (filter metric_name (map fst d)) (d, 0)
      in (err, Some d'))"
    by (simp only: fty_shm_cleanup_def cleanup_loop_skip option.case)
  have e: "\<exists>err d'. fty_shm_delete_asset asset (Some d) = (err, Some d') \<and> e \<in> set d'"
    if "e \<in> set d" "CHR '':'' \<notin> set (fst e)" for e
  proof -
    obtain d' err where l: "delete_asset_loop asset (map fst d) (d, 0) = (d', err)" by fastforce
    with delete_asset_loop_keeps [OF that, of asset "map fst d" 0] have "e \<in> set d'" by simp
    with l show ?thesis by (simp add: fty_shm_delete_asset_def)
  qed
  have f: "\<exists>err d'. fty_shm_cleanup now quiet (Some d) = (err, Some d') \<and> e \<in> set d'"
    if "e \<in> set d" "\<not> metric_name (fst e)" "fst e \<noteq> ''.delete''" for e
  proof -
    obtain d' err where l: "cleanup_loop now quiet (map fst d) (d, 0) = (d', err)" by fastforce
    have "\<not> eligible now d (fst e)" using that(2) by (simp add: eligible_def)
    with cleanup_loop_quiet [of e now "map fst d" d 0] that l have "e \<in> set d'"
      by (simp add: DELETE_NAME_def)
    with l show ?thesis by (simp add: fty_shm_cleanup_def)
  qed
  show ?thesis
    using a b c dd e f unfolding mn by blast
qed

theorem scanners_skip_by_their_own_test_witness:
  "CHR '':'' \<notin> set ''README'' \<and>
   find_assets (Some [(''README'', \<lparr>st_dev = 0, st_ino = 1, st_mtime = 0, bytes = ''x''\<rparr>),
                      (''assetA:temp.metric'',
                        \<lparr>st_dev = 0, st_ino = 2, st_mtime = 0, bytes = record_buf ''23.5'' ''C'' 1\<rparr>)]) []
     = (0, [''assetA'']) \<and>
   fty_shm_delete_asset ''assetA''
     (Some [(''README'', \<lparr>st_dev = 0, st_ino = 1, st_mtime = 0, bytes = ''x''\<rparr>),
            (''assetA:temp.metric'',
              \<lparr>st_dev = 0, st_ino = 2, st_mtime = 0, bytes = record_buf ''23.5'' ''C'' 1\<rparr>)])
     = (0, Some [(''README'', \<lparr>st_dev = 0, st_ino = 1, st_mtime = 0, bytes = ''x''\<rparr>)]) \<and>
   fty_shm_cleanup 4 quiet
     (Some [(''README'', \<lparr>st_dev = 0, st_ino = 1, st_mtime = 0, bytes = ''x''\<rparr>),
            (''assetA:temp.metric'',
              \<lparr>st_dev = 0, st_ino = 2, st_mtime = 0, bytes = record_buf ''23.5'' ''C'' 1\<rparr>)])
     = (0, Some [(''README'', \<lparr>st_dev = 0, st_ino = 1, st_mtime = 0, bytes = ''x''\<rparr>)])"
proof -
  let ?r = "(''README'', \<lparr>st_dev = 0, st_ino = 1, st_mtime = 0, bytes = ''x''\<rparr>)"
  let ?m = "(''assetA:temp.metric'',
              \<lparr>st_dev = 0, st_ino = 2, st_mtime = 0, bytes = record_buf ''23.5'' ''C'' 1\<rparr>)"
  note t = scanners_skip_by_their_own_test [where d = "[?r, ?m]" and old = "[]" and now = 4
      and behind = zeroed and asset = "''assetA''" and old_metrics = Map.empty and env = quiet]
  note t1 = t [THEN conjunct1]
  note t5 = t [THEN conjunct2, THEN conjunct2, THEN conjunct2, THEN conjunct2, THEN conjunct1]
  note t6 = t [THEN conjunct2, THEN conjunct2, THEN conjunct2, THEN conjunct2, THEN conjunct2]
  have a: "find_assets (Some [?r, ?m]) [] = (0, [''assetA''])"
    unfolding t1 by (simp add: find_assets_def asset_of_def)
  have "\<exists>err d'. fty_shm_delete_asset ''assetA'' (Some [?r, ?m]) = (err, Some d') \<and> ?r \<in> set d'"
    using bspec [OF t5, of ?r] by simp
  then have b: "fty_shm_delete_asset ''assetA'' (Some [?r, ?m]) = (0, Some [?r])"
    by (simp add: delete_eval)
  have "\<exists>err d'. fty_shm_cleanup 4 quiet (Some [?r, ?m]) = (err, Some d') \<and> ?r \<in> set d'"
    using bspec [OF t6, of ?r] by simp
  then have c: "fty_shm_cleanup 4 quiet (Some [?r, ?m]) = (0, Some [?r])"
    by (simp add: cleanup_eval read_eval)
  from a b c show ?thesis by simp
qed

text \<open>
  C4 as the specification words it fails: the entry \<open>a:b\<close> has no suffix, yet
  \<open>find_assets\<close> returns its asset and \<open>fty_shm_delete_asset\<close> unlinks it; the entry
  \<open>foo.metric\<close> has no colon, yet \<open>fty_shm_cleanup\<close> removes it.
\<close>

theorem scanners_tests_differ_counterexample:
  "drop (length ''a:b'' - 7) ''a:b'' \<noteq> ''.metric'' \<and>
   find_assets (Some [(''a:b'', \<lparr>st_dev = 0, st_ino = 1, st_mtime = 0, bytes = ''x''\<rparr>)]) []
     = (0, [''a'']) \<and>
   fty_shm_delete_asset ''a''
     (Some [(''a:b'', \<lparr>st_dev = 0, st_ino = 1, st_mtime = 0, bytes = ''x''\<rparr>)]) = (0, Some []) \<and>
   CHR '':'' \<notin> set ''foo.metric'' \<and>
   fty_shm_cleanup 4 quiet
     (Some [(''foo.metric'',
        \<lparr>st_dev = 0, st_ino = 2, st_mtime = 0, bytes = record_buf ''23.5'' ''C'' 1\<rparr>)]) = (0, Some [])"
  by (simp add: find_assets_def delete_eval cleanup_eval read_eval)

end
